theory Spec2Isabelle
  imports Main
begin

section \<open>The hold-and-swap server (second version of server.ts)\<close>

text \<open>
  The server keeps one active Vite dev server, replaces it by a fresh one in
  \<open>restartVite\<close>, and parks HTTP requests and WebSocket upgrades that arrive while
  a restart is running.  Node runs the code on one thread: a callback runs until its next
  \<open>await\<close>, the continuations of settled promises (microtasks) run in FIFO order
  before the next I/O callback.  The model follows this: the state holds the module's
  variables, the suspended async functions with the point where they wait, the microtask
  queue, and the list of calls made to the outside (the trace).

  A \<open>ViteDevServer\<close> object is identified by the number the code logs for it, the
  value of \<open>serverIdCounter\<close> right after the increment that follows
  \<open>createServer\<close>.  A promise made by the async body of \<open>restartVite\<close> is
  identified by the number of bodies started before it.  Requests and upgrade sockets are
  numbered in order of arrival.  A port and a server build are natural numbers supplied by
  the environment.
\<close>

type_synonym server = nat
type_synonym build = nat
type_synonym port = nat

text \<open>Outcome of an awaited I/O operation: a value, or a thrown error.\<close>

datatype io = Ok nat | Err

text \<open>
  Where the async body of \<open>restartVite\<close> is suspended: \<open>fs.rm\<close>,
  \<open>getPort\<close>, \<open>createServer\<close> (with the local \<open>hmrPort\<close>),
  \<open>ssrLoadModule\<close> inside \<open>getServerBuild(newServer)\<close> (with the local
  \<open>newServer\<close>), \<open>oldServer.close()\<close>; or it has returned, or thrown.
\<close>

datatype swap_pc =
    AwaitRm | AwaitPort | AwaitCreate port | AwaitLoad server | AwaitClose
  | SwapDone | SwapFailed

record swap =
  oldServer :: "server option"
  oldServerId :: nat
  newServer :: "server option"
  pc :: swap_pc
  waiters :: "nat list"

text \<open>
  Continuations in the microtask queue: a held request released by \<open>resolve()\<close>,
  a request whose \<open>await ensureFirstServer()\<close> is fulfilled or rejected, a held
  upgrade released by \<open>resolve()\<close>.
\<close>

datatype microtask = ResumeReq nat | BindReq nat | ThrowReq nat | ResumeConn nat

text \<open>Calls and assignments recorded in the trace, in the order they happen.\<close>

datatype action =
    RmCache | GetPort | CreateServer port
  | Activate server
  | LoadModule server | CacheSet server | CacheDelete server | CloseServer server
  | ResolveHttp nat | ResolveWs nat
  | Connect nat port | DestroySocket nat | DestroyTarget nat

datatype req_state = ReqRunning | ReqLoad server | ReqDone | ReqFailed

text \<open>
  A request carries the two fields the hook attaches, \<open>viteServer\<close> and
  \<open>serverBuild\<close>.  \<open>held\<close> notes, for a request that was parked, the value
  of \<open>activeVite\<close> and the position of the running restart at that moment.
\<close>

record request =
  viteServer :: "server option"
  serverBuild :: "build option"
  rstate :: req_state
  held :: "(server option \<times> swap_pc) option"

datatype conn_state = ConnNew | ConnHeld | ConnProxying port | ConnDestroyed | ConnClosed

record conn =
  cstate :: conn_state
  clientGone :: bool

record state =
  activeVite :: "server option"
  activeHmrPort :: "port option"
  serverIdCounter :: nat
  restartPromise :: "nat option"
  pendingHttpRequests :: "nat list"
  pendingWsConnections :: "nat list"
  serverBuildCache :: "server \<Rightarrow> build option"
  isFirstStart :: bool
  hasTriggeredRestart :: bool
  initialServerPromise :: "nat option"
  swaps :: "nat \<Rightarrow> swap"
  nswaps :: nat
  reqs :: "nat \<Rightarrow> request"
  nreqs :: nat
  conns :: "nat \<Rightarrow> conn"
  nconns :: nat
  ready :: "microtask list"
  trace :: "action list"

definition newSwap :: swap where
  "newSwap = \<lparr>oldServer = None, oldServerId = 0, newServer = None, pc = SwapDone, waiters = []\<rparr>"

definition newRequest :: request where
  "newRequest = \<lparr>viteServer = None, serverBuild = None, rstate = ReqRunning, held = None\<rparr>"

definition newConn :: conn where
  "newConn = \<lparr>cstate = ConnNew, clientGone = False\<rparr>"

definition init :: state where
  "init = \<lparr>activeVite = None, activeHmrPort = None, serverIdCounter = 0,
     restartPromise = None, pendingHttpRequests = [], pendingWsConnections = [],
     serverBuildCache = (\<lambda>_. None), isFirstStart = True, hasTriggeredRestart = False,
     initialServerPromise = None, swaps = (\<lambda>_. newSwap), nswaps = 0,
     reqs = (\<lambda>_. newRequest), nreqs = 0, conns = (\<lambda>_. newConn), nconns = 0,
     ready = [], trace = []\<rparr>"

subsection \<open>getServerBuild\<close>

text \<open>
  \<open>getServerBuild\<close> up to its \<open>await\<close>: a cached build is returned at once;
  otherwise \<open>ssrLoadModule\<close> is called and the function is suspended (\<open>None\<close>).
  \<open>getServerBuild_loaded\<close> is the rest, run when the load has produced a build.
\<close>

definition getServerBuild :: "server \<Rightarrow> state \<Rightarrow> build option \<times> state" where
  "getServerBuild v s =
     (case serverBuildCache s v of
        Some cached \<Rightarrow> (Some cached, s)
      | None \<Rightarrow> (None, s\<lparr>trace := trace s @ [LoadModule v]\<rparr>))"

definition getServerBuild_loaded :: "server \<Rightarrow> build \<Rightarrow> state \<Rightarrow> build \<times> state" where
  "getServerBuild_loaded v b s =
     (b, s\<lparr>serverBuildCache := (serverBuildCache s)(v := Some b),
           trace := trace s @ [CacheSet v]\<rparr>)"

subsection \<open>restartVite\<close>

text \<open>
  \<open>startBody\<close> is the async body of \<open>restartVite\<close> from its start to its
  first \<open>await\<close> (\<open>fs.rm\<close> on the very first start, \<open>getPort\<close>
  afterwards): it reads \<open>oldServer\<close> and \<open>oldServerId\<close> and suspends.
  The call itself: a restart promise that is present is returned; otherwise the body
  starts and its promise is stored in \<open>restartPromise\<close>.
\<close>

definition startBody :: "state \<Rightarrow> state" where
  "startBody s =
     s\<lparr>swaps := (swaps s)(nswaps s :=
            \<lparr>oldServer = activeVite s, oldServerId = serverIdCounter s, newServer = None,
             pc = (if isFirstStart s then AwaitRm else AwaitPort), waiters = []\<rparr>),
       nswaps := Suc (nswaps s),
       trace := trace s @ [if isFirstStart s then RmCache else GetPort]\<rparr>"

definition restartVite :: "state \<Rightarrow> state \<times> nat" where
  "restartVite s =
     (case restartPromise s of
        Some k \<Rightarrow> (s, k)
      | None \<Rightarrow> ((startBody s)\<lparr>restartPromise := Some (nswaps s)\<rparr>, nswaps s))"

text \<open>The promise of body \<open>k\<close> settles: the continuations waiting on it are queued.\<close>

definition settle :: "nat \<Rightarrow> bool \<Rightarrow> state \<Rightarrow> state" where
  "settle k ok s =
     s\<lparr>swaps := (swaps s)(k := (swaps s k)\<lparr>pc := (if ok then SwapDone else SwapFailed),
                                            waiters := []\<rparr>),
       ready := ready s @ map (if ok then BindReq else ThrowReq) (waiters (swaps s k))\<rparr>"

text \<open>The last statement of the body, \<open>restartPromise = null\<close>, and its return.\<close>

definition finishSwap :: "nat \<Rightarrow> state \<Rightarrow> state" where
  "finishSwap k s = settle k True (s\<lparr>restartPromise := None\<rparr>)"

text \<open>The two \<open>for\<close> loops that call the stored \<open>resolve\<close> functions.\<close>

fun flushHttp :: "nat list \<Rightarrow> state \<Rightarrow> state" where
  "flushHttp [] s = s"
| "flushHttp (r # rs) s =
     flushHttp rs (s\<lparr>ready := ready s @ [ResumeReq r], trace := trace s @ [ResolveHttp r]\<rparr>)"

fun flushWs :: "nat list \<Rightarrow> state \<Rightarrow> state" where
  "flushWs [] s = s"
| "flushWs (c # cs) s =
     flushWs cs (s\<lparr>ready := ready s @ [ResumeConn c], trace := trace s @ [ResolveWs c]\<rparr>)"

text \<open>
  The body after \<open>await getServerBuild(newServer)\<close>: flush the HTTP holds, flush the
  WebSocket holds, then close the old server if there is one, else finish.
\<close>

definition afterLoad :: "nat \<Rightarrow> state \<Rightarrow> state" where
  "afterLoad k s =
     (let pendingHttp = pendingHttpRequests s;
          s1 = flushHttp pendingHttp (s\<lparr>pendingHttpRequests := []\<rparr>);
          pendingWs = pendingWsConnections s1;
          s2 = flushWs pendingWs (s1\<lparr>pendingWsConnections := []\<rparr>)
      in case oldServer (swaps s2 k) of
           Some old \<Rightarrow>
             s2\<lparr>serverBuildCache := (serverBuildCache s2)(old := None),
                swaps := (swaps s2)(k := (swaps s2 k)\<lparr>pc := AwaitClose\<rparr>),
                trace := trace s2 @ [CacheDelete old, CloseServer old]\<rparr>
         | None \<Rightarrow> finishSwap k s2)"

text \<open>
  The body after \<open>await createServer\<close> succeeded: count, swap \<open>activeVite\<close> and
  \<open>activeHmrPort\<close>, then call \<open>getServerBuild(newServer)\<close>.
\<close>

definition afterCreate :: "nat \<Rightarrow> port \<Rightarrow> state \<Rightarrow> state" where
  "afterCreate k hmrPort s =
     (let n = Suc (serverIdCounter s);
          s1 = s\<lparr>serverIdCounter := n, activeVite := Some n, activeHmrPort := Some hmrPort,
                 swaps := (swaps s)(k := (swaps s k)\<lparr>newServer := Some n\<rparr>),
                 trace := trace s @ [Activate n]\<rparr>
      in case getServerBuild n s1 of
           (Some b, s2) \<Rightarrow> afterLoad k s2
         | (None, s2) \<Rightarrow> s2\<lparr>swaps := (swaps s2)(k := (swaps s2 k)\<lparr>pc := AwaitLoad n\<rparr>)\<rparr>)"

text \<open>
  The awaited operation of body \<open>k\<close> completes with outcome \<open>r\<close>.  The
  \<open>fs.rm\<close> and the \<open>close\<close> sit in a \<open>try\<close>: their errors are dropped.
  An error of \<open>getPort\<close>, \<open>createServer\<close> or the load leaves the body at once:
  the promise rejects, and nothing after the failing line runs.
\<close>

definition swapIO :: "nat \<Rightarrow> io \<Rightarrow> state \<Rightarrow> state option" where
  "swapIO k r s =
     (if nswaps s \<le> k then None
      else case pc (swaps s k) of
        AwaitRm \<Rightarrow>
          Some (s\<lparr>isFirstStart := False,
                  swaps := (swaps s)(k := (swaps s k)\<lparr>pc := AwaitPort\<rparr>),
                  trace := trace s @ [GetPort]\<rparr>)
      | AwaitPort \<Rightarrow>
          (case r of
             Ok hmrPort \<Rightarrow>
               Some (s\<lparr>swaps := (swaps s)(k := (swaps s k)\<lparr>pc := AwaitCreate hmrPort\<rparr>),
                       trace := trace s @ [CreateServer hmrPort]\<rparr>)
           | Err \<Rightarrow> Some (settle k False s))
      | AwaitCreate hmrPort \<Rightarrow>
          (case r of
             Ok _ \<Rightarrow> Some (afterCreate k hmrPort s)
           | Err \<Rightarrow> Some (settle k False s))
      | AwaitLoad n \<Rightarrow>
          (case r of
             Ok b \<Rightarrow> Some (afterLoad k (snd (getServerBuild_loaded n b s)))
           | Err \<Rightarrow> Some (settle k False s))
      | AwaitClose \<Rightarrow> Some (finishSwap k s)
      | SwapDone \<Rightarrow> None
      | SwapFailed \<Rightarrow> None)"

subsection \<open>The onRequest hook\<close>

definition ensureFirstServer :: "state \<Rightarrow> state \<times> nat option" where
  "ensureFirstServer s =
     (if activeVite s \<noteq> None then (s, None)
      else case initialServerPromise s of
             Some k \<Rightarrow> (s, Some k)
           | None \<Rightarrow>
               (let (s1, k) = restartVite s
                in (s1\<lparr>initialServerPromise := Some k\<rparr>, Some k)))"

text \<open>
  Request \<open>r\<close> awaits the result of \<open>ensureFirstServer\<close>: no promise (the function
  returned at once) or a settled one queues the continuation, a pending one registers it.
\<close>

definition awaitPromise :: "nat \<Rightarrow> nat option \<Rightarrow> state \<Rightarrow> state" where
  "awaitPromise r p s =
     (case p of
        None \<Rightarrow> s\<lparr>ready := ready s @ [BindReq r]\<rparr>
      | Some k \<Rightarrow>
          (case pc (swaps s k) of
             SwapDone \<Rightarrow> s\<lparr>ready := ready s @ [BindReq r]\<rparr>
           | SwapFailed \<Rightarrow> s\<lparr>ready := ready s @ [ThrowReq r]\<rparr>
           | _ \<Rightarrow> s\<lparr>swaps := (swaps s)(k := (swaps s k)\<lparr>waiters := waiters (swaps s k) @ [r]\<rparr>)\<rparr>))"

definition hookEnsure :: "nat \<Rightarrow> state \<Rightarrow> state" where
  "hookEnsure r s = (let (s1, p) = ensureFirstServer s in awaitPromise r p s1)"

text \<open>
  The hook after \<open>await ensureFirstServer()\<close>: attach \<open>activeVite\<close> and its build.
  With \<open>activeVite\<close> null the call \<open>getServerBuild(null)\<close> throws on
  \<open>null.ssrLoadModule\<close>.
\<close>

definition hookBind :: "nat \<Rightarrow> state \<Rightarrow> state" where
  "hookBind r s =
     (case activeVite s of
        None \<Rightarrow> s\<lparr>reqs := (reqs s)(r := (reqs s r)\<lparr>viteServer := None, rstate := ReqFailed\<rparr>)\<rparr>
      | Some v \<Rightarrow>
          (let s1 = s\<lparr>reqs := (reqs s)(r := (reqs s r)\<lparr>viteServer := Some v\<rparr>)\<rparr>
           in case getServerBuild v s1 of
                (Some b, s2) \<Rightarrow>
                  s2\<lparr>reqs := (reqs s2)(r := (reqs s2 r)\<lparr>serverBuild := Some b, rstate := ReqDone\<rparr>)\<rparr>
              | (None, s2) \<Rightarrow>
                  s2\<lparr>reqs := (reqs s2)(r := (reqs s2 r)\<lparr>rstate := ReqLoad v\<rparr>)\<rparr>))"

definition hookThrow :: "nat \<Rightarrow> state \<Rightarrow> state" where
  "hookThrow r s = s\<lparr>reqs := (reqs s)(r := (reqs s r)\<lparr>rstate := ReqFailed\<rparr>)\<rparr>"

text \<open>
  A request arrives; \<open>envmjs\<close> tells whether its url includes \<open>env.mjs\<close>.  The
  hook runs to its first \<open>await\<close>.
\<close>

definition httpRequest :: "bool \<Rightarrow> state \<Rightarrow> state" where
  "httpRequest envmjs s =
     (let r = nreqs s;
          s0 = s\<lparr>reqs := (reqs s)(r := newRequest), nreqs := Suc r\<rparr>;
          s1 = (if envmjs \<and> \<not> hasTriggeredRestart s0
                then fst (restartVite (s0\<lparr>hasTriggeredRestart := True\<rparr>))
                else s0)
      in case restartPromise s1 of
           Some k \<Rightarrow>
             s1\<lparr>pendingHttpRequests := pendingHttpRequests s1 @ [r],
                reqs := (reqs s1)(r := (reqs s1 r)\<lparr>held := Some (activeVite s1, pc (swaps s1 k))\<rparr>)\<rparr>
         | None \<Rightarrow> hookEnsure r s1)"

text \<open>The load started by a request's own \<open>getServerBuild\<close> completes.\<close>

definition buildIO :: "nat \<Rightarrow> io \<Rightarrow> state \<Rightarrow> state option" where
  "buildIO r res s =
     (if nreqs s \<le> r then None
      else case rstate (reqs s r) of
        ReqLoad v \<Rightarrow>
          (case res of
             Ok b \<Rightarrow>
               (let s1 = snd (getServerBuild_loaded v b s)
                in Some (s1\<lparr>reqs := (reqs s1)(r := (reqs s1 r)\<lparr>serverBuild := Some b,
                                                                 rstate := ReqDone\<rparr>)\<rparr>))
           | Err \<Rightarrow> Some (hookThrow r s))
      | _ \<Rightarrow> None)"

subsection \<open>The HMR proxy's upgrade handler\<close>

text \<open>
  The handler from \<open>const targetPort = activeHmrPort\<close> on.  \<open>!targetPort\<close> holds
  for null and for 0.  The listeners for the client socket's \<open>error\<close> and
  \<open>close\<close> are registered here, after \<open>net.connect\<close>.
\<close>

definition proxy :: "nat \<Rightarrow> state \<Rightarrow> state" where
  "proxy c s =
     (case activeHmrPort s of
        None \<Rightarrow>
          s\<lparr>conns := (conns s)(c := (conns s c)\<lparr>cstate := ConnDestroyed\<rparr>),
            trace := trace s @ [DestroySocket c]\<rparr>
      | Some targetPort \<Rightarrow>
          if targetPort = 0
          then s\<lparr>conns := (conns s)(c := (conns s c)\<lparr>cstate := ConnDestroyed\<rparr>),
                 trace := trace s @ [DestroySocket c]\<rparr>
          else s\<lparr>conns := (conns s)(c := (conns s c)\<lparr>cstate := ConnProxying targetPort\<rparr>),
                 trace := trace s @ [Connect c targetPort]\<rparr>)"

definition upgrade :: "state \<Rightarrow> state" where
  "upgrade s =
     (let c = nconns s;
          s0 = s\<lparr>conns := (conns s)(c := newConn), nconns := Suc c\<rparr>
      in if restartPromise s0 \<noteq> None
         then s0\<lparr>pendingWsConnections := pendingWsConnections s0 @ [c],
                 conns := (conns s0)(c := (conns s0 c)\<lparr>cstate := ConnHeld\<rparr>)\<rparr>
         else proxy c s0)"

text \<open>
  The client of socket \<open>c\<close> goes away.  Only a socket that has passed
  \<open>net.connect\<close> has a \<open>close\<close> listener, which destroys the target socket; a
  held socket has none, and its entry in \<open>pendingWsConnections\<close> is not touched.
\<close>

definition clientClose :: "nat \<Rightarrow> state \<Rightarrow> state option" where
  "clientClose c s =
     (if nconns s \<le> c \<or> clientGone (conns s c) then None
      else let s1 = s\<lparr>conns := (conns s)(c := (conns s c)\<lparr>clientGone := True\<rparr>)\<rparr>
           in case cstate (conns s1 c) of
                ConnProxying p \<Rightarrow>
                  Some (s1\<lparr>conns := (conns s1)(c := (conns s1 c)\<lparr>cstate := ConnClosed\<rparr>),
                          trace := trace s1 @ [DestroyTarget c]\<rparr>)
              | _ \<Rightarrow> Some s1)"

subsection \<open>The event loop\<close>

datatype event =
    HttpRequest bool
  | Upgrade
  | ClientClose nat
  | SwapIO nat io
  | BuildIO nat io
  | Tick

definition tick :: "state \<Rightarrow> state option" where
  "tick s =
     (case ready s of
        [] \<Rightarrow> None
      | m # ms \<Rightarrow>
          (let s0 = s\<lparr>ready := ms\<rparr>
           in Some (case m of
                ResumeReq r \<Rightarrow> hookEnsure r s0
              | BindReq r \<Rightarrow> hookBind r s0
              | ThrowReq r \<Rightarrow> hookThrow r s0
              | ResumeConn c \<Rightarrow> proxy c s0)))"

text \<open>
  One turn: \<open>Tick\<close> runs the first microtask; every other event is an I/O callback
  and runs only when no microtask is left.
\<close>

definition step :: "event \<Rightarrow> state \<Rightarrow> state option" where
  "step e s =
     (case e of
        Tick \<Rightarrow> tick s
      | _ \<Rightarrow>
          if ready s \<noteq> [] then None
          else (case e of
                  HttpRequest envmjs \<Rightarrow> Some (httpRequest envmjs s)
                | Upgrade \<Rightarrow> Some (upgrade s)
                | ClientClose c \<Rightarrow> clientClose c s
                | SwapIO k r \<Rightarrow> swapIO k r s
                | BuildIO r res \<Rightarrow> buildIO r res s
                | Tick \<Rightarrow> None))"

fun run :: "event list \<Rightarrow> state \<Rightarrow> state option" where
  "run [] s = Some s"
| "run (e # es) s = (case step e s of None \<Rightarrow> None | Some s' \<Rightarrow> run es s')"

inductive reachable :: "state \<Rightarrow> bool" where
  reachable_init: "reachable init"
| reachable_step: "reachable s \<Longrightarrow> step e s = Some s' \<Longrightarrow> reachable s'"

section \<open>The waterfall server (first version of server.ts)\<close>

text \<open>
  The first version has no hold queues.  \<open>restartVite\<close> creates a server and makes
  it \<open>vite.server\<close> without closing the old one; the hook restarts on the request
  whose position in the waterfall is \<open>waterfallRestartOn\<close> and lets that request and
  the later ones wait for the promise in \<open>restarting\<close>.  The module's last lines run
  \<open>await restartVite()\<close> and only then \<open>fastify.listen\<close>.  The names of
  this model carry the prefix \<open>wf\<close> where the second version has the same name.
\<close>

definition waterfallRestartOn :: nat where
  "waterfallRestartOn = 20"

text \<open>
  Where a call of \<open>restartVite\<close> is suspended: the two \<open>getPort\<close> calls,
  \<open>createServer\<close>, the load inside \<open>getServerBuild(newServer)\<close>; or it has
  returned, or thrown.
\<close>

datatype wf_pc = WfAwaitPorts | WfAwaitCreate | WfAwaitLoad server | WfDone | WfFailed

text \<open>
  What waits for a promise of \<open>restartVite\<close>: the hook of a request at
  \<open>await restarting\<close>, the hook of a request for \<open>/\<close> at
  \<open>await restartVite()\<close>, the module's top level before \<open>fastify.listen\<close>.
\<close>

datatype wf_task = WfBind nat | WfRoot nat | WfListen

datatype wf_microtask = WfFulfilled wf_task | WfRejected wf_task

record wf_restart =
  wf_pc :: wf_pc
  wf_waiters :: "wf_task list"

datatype wf_rstate = WfStat | WfRmdir | WfWaiting | WfLoad server | WfServed | WfErrored

record wf_request =
  wf_viteServer :: "server option"
  wf_serverBuild :: "build option"
  wf_rstate :: wf_rstate

record wf_state =
  vite_server :: "server option"
  wf_serverBuildCache :: "server \<Rightarrow> build option"
  wf_serverIdCounter :: nat
  restarting :: "nat option"
  waterfallCounter :: nat
  wf_restarts :: "nat \<Rightarrow> wf_restart"
  wf_nrestarts :: nat
  wf_reqs :: "nat \<Rightarrow> wf_request"
  wf_nreqs :: nat
  wf_ready :: "wf_microtask list"
  listening :: bool

definition wf_newRequest :: wf_request where
  "wf_newRequest = \<lparr>wf_viteServer = None, wf_serverBuild = None, wf_rstate = WfWaiting\<rparr>"

text \<open>
  \<open>restartVite\<close> called: the body runs to \<open>await Promise.all([getPort(),
  getPort()])\<close>; its promise is the result.
\<close>

definition wf_restartVite :: "wf_state \<Rightarrow> wf_state \<times> nat" where
  "wf_restartVite s =
     (s\<lparr>wf_restarts := (wf_restarts s)(wf_nrestarts s :=
            \<lparr>wf_pc = WfAwaitPorts, wf_waiters = []\<rparr>),
         wf_nrestarts := Suc (wf_nrestarts s)\<rparr>, wf_nrestarts s)"

text \<open>
  \<open>await\<close> on promise \<open>k\<close>: a settled promise queues the continuation, a
  pending one registers it.
\<close>

definition wf_await :: "wf_task \<Rightarrow> nat \<Rightarrow> wf_state \<Rightarrow> wf_state" where
  "wf_await t k s =
     (case wf_pc (wf_restarts s k) of
        WfDone \<Rightarrow> s\<lparr>wf_ready := wf_ready s @ [WfFulfilled t]\<rparr>
      | WfFailed \<Rightarrow> s\<lparr>wf_ready := wf_ready s @ [WfRejected t]\<rparr>
      | _ \<Rightarrow> s\<lparr>wf_restarts := (wf_restarts s)(k :=
                  (wf_restarts s k)\<lparr>wf_waiters := wf_waiters (wf_restarts s k) @ [t]\<rparr>)\<rparr>)"

definition wf_settle :: "nat \<Rightarrow> bool \<Rightarrow> wf_state \<Rightarrow> wf_state" where
  "wf_settle k ok s =
     s\<lparr>wf_restarts := (wf_restarts s)(k :=
          \<lparr>wf_pc = (if ok then WfDone else WfFailed), wf_waiters = []\<rparr>),
       wf_ready := wf_ready s @
          map (if ok then WfFulfilled else WfRejected) (wf_waiters (wf_restarts s k))\<rparr>"

text \<open>The module starts: the top level has called \<open>restartVite\<close> and awaits it.\<close>

definition wf_init :: wf_state where
  "wf_init =
     \<lparr>vite_server = None, wf_serverBuildCache = (\<lambda>_. None), wf_serverIdCounter = 0,
      restarting = None, waterfallCounter = 0,
      wf_restarts = (\<lambda>_. \<lparr>wf_pc = WfDone, wf_waiters = []\<rparr>)
                    (0 := \<lparr>wf_pc = WfAwaitPorts, wf_waiters = [WfListen]\<rparr>),
      wf_nrestarts = 1, wf_reqs = (\<lambda>_. wf_newRequest), wf_nreqs = 0, wf_ready = [],
      listening = False\<rparr>"

text \<open>
  The awaited operation of restart \<open>k\<close> completes.  After \<open>createServer\<close>:
  count, set \<open>vite.server\<close>, call \<open>getServerBuild(newServer)\<close>.
\<close>

definition wf_restartIO :: "nat \<Rightarrow> io \<Rightarrow> wf_state \<Rightarrow> wf_state option" where
  "wf_restartIO k r s =
     (if wf_nrestarts s \<le> k then None
      else case wf_pc (wf_restarts s k) of
        WfAwaitPorts \<Rightarrow>
          (case r of
             Ok _ \<Rightarrow> Some (s\<lparr>wf_restarts := (wf_restarts s)(k :=
                             (wf_restarts s k)\<lparr>wf_pc := WfAwaitCreate\<rparr>)\<rparr>)
           | Err \<Rightarrow> Some (wf_settle k False s))
      | WfAwaitCreate \<Rightarrow>
          (case r of
             Ok _ \<Rightarrow>
               (let n = Suc (wf_serverIdCounter s);
                    s1 = s\<lparr>wf_serverIdCounter := n, vite_server := Some n\<rparr>
                in case wf_serverBuildCache s1 n of
                     Some cached \<Rightarrow> Some (wf_settle k True s1)
                   | None \<Rightarrow> Some (s1\<lparr>wf_restarts := (wf_restarts s1)(k :=
                                       (wf_restarts s1 k)\<lparr>wf_pc := WfAwaitLoad n\<rparr>)\<rparr>))
           | Err \<Rightarrow> Some (wf_settle k False s))
      | WfAwaitLoad n \<Rightarrow>
          (case r of
             Ok b \<Rightarrow>
               Some (wf_settle k True
                       (s\<lparr>wf_serverBuildCache := (wf_serverBuildCache s)(n := Some b)\<rparr>))
           | Err \<Rightarrow> Some (wf_settle k False s))
      | WfDone \<Rightarrow> None
      | WfFailed \<Rightarrow> None)"

text \<open>
  The hook's last two statements in either branch: attach server \<open>v\<close> and its build.
  \<open>getServerBuild(null)\<close> throws.
\<close>

definition wf_attach :: "nat \<Rightarrow> server option \<Rightarrow> wf_state \<Rightarrow> wf_state" where
  "wf_attach r v s =
     (case v of
        None \<Rightarrow> s\<lparr>wf_reqs := (wf_reqs s)(r := (wf_reqs s r)\<lparr>wf_viteServer := None,
                                                           wf_rstate := WfErrored\<rparr>)\<rparr>
      | Some w \<Rightarrow>
          (case wf_serverBuildCache s w of
             Some cached \<Rightarrow>
               s\<lparr>wf_reqs := (wf_reqs s)(r := (wf_reqs s r)\<lparr>wf_viteServer := Some w,
                    wf_serverBuild := Some cached, wf_rstate := WfServed\<rparr>)\<rparr>
           | None \<Rightarrow>
               s\<lparr>wf_reqs := (wf_reqs s)(r := (wf_reqs s r)\<lparr>wf_viteServer := Some w,
                    wf_rstate := WfLoad w\<rparr>)\<rparr>))"

text \<open>
  A request arrives; \<open>root\<close> tells whether its url is \<open>/\<close>.  The hook runs to
  its first \<open>await\<close>: for \<open>/\<close> that is \<open>fs.stat\<close>; otherwise the
  request takes its position, the one at \<open>waterfallRestartOn\<close> starts the restart, and
  the request either waits for \<open>restarting\<close> or attaches the captured server.
\<close>

definition wf_request :: "bool \<Rightarrow> wf_state \<Rightarrow> wf_state" where
  "wf_request root s =
     (let r = wf_nreqs s;
          capturedViteServer = vite_server s;
          restartWasAlreadyInProgress = (restarting s \<noteq> None);
          s0 = s\<lparr>wf_reqs := (wf_reqs s)(r := wf_newRequest), wf_nreqs := Suc r\<rparr>
      in if root
         then s0\<lparr>wf_reqs := (wf_reqs s0)(r := (wf_reqs s0 r)\<lparr>wf_rstate := WfStat\<rparr>)\<rparr>
         else
           (let s1 = s0\<lparr>waterfallCounter := Suc (waterfallCounter s0)\<rparr>;
                myWaterfallPosition = waterfallCounter s1;
                s2 = (if myWaterfallPosition = waterfallRestartOn
                      then (let (s', k) = wf_restartVite s1 in s'\<lparr>restarting := Some k\<rparr>)
                      else s1);
                shouldUseNewServer =
                  (waterfallRestartOn \<le> myWaterfallPosition \<or> restartWasAlreadyInProgress)
            in case restarting s2 of
                 Some k \<Rightarrow>
                   if shouldUseNewServer then wf_await (WfBind r) k s2
                   else wf_attach r capturedViteServer s2
               | None \<Rightarrow> wf_attach r capturedViteServer s2))"

text \<open>The hook of a request for \<open>/\<close> at \<open>await restartVite()\<close>.\<close>

definition wf_rootRestart :: "nat \<Rightarrow> wf_state \<Rightarrow> wf_state" where
  "wf_rootRestart r s =
     (let (s1, k) = wf_restartVite s
      in wf_await (WfRoot r) k
           (s1\<lparr>wf_reqs := (wf_reqs s1)(r := (wf_reqs s1 r)\<lparr>wf_rstate := WfWaiting\<rparr>)\<rparr>))"

text \<open>
  \<open>fs.stat\<close> has answered (\<open>Ok\<close>: the cache directory exists and
  \<open>fs.rmdir\<close> is called; \<open>Err\<close>: it does not); \<open>fs.rmdir\<close> has returned
  or thrown.
\<close>

definition wf_fsIO :: "nat \<Rightarrow> io \<Rightarrow> wf_state \<Rightarrow> wf_state option" where
  "wf_fsIO r res s =
     (if wf_nreqs s \<le> r then None
      else case wf_rstate (wf_reqs s r) of
        WfStat \<Rightarrow>
          (case res of
             Ok _ \<Rightarrow> Some (s\<lparr>wf_reqs := (wf_reqs s)(r := (wf_reqs s r)\<lparr>wf_rstate := WfRmdir\<rparr>)\<rparr>)
           | Err \<Rightarrow> Some (wf_rootRestart r s))
      | WfRmdir \<Rightarrow>
          (case res of
             Ok _ \<Rightarrow> Some (wf_rootRestart r s)
           | Err \<Rightarrow> Some (s\<lparr>wf_reqs := (wf_reqs s)(r := (wf_reqs s r)\<lparr>wf_rstate := WfErrored\<rparr>)\<rparr>))
      | _ \<Rightarrow> None)"

text \<open>The load started by a request's own \<open>getServerBuild\<close> completes.\<close>

definition wf_buildIO :: "nat \<Rightarrow> io \<Rightarrow> wf_state \<Rightarrow> wf_state option" where
  "wf_buildIO r res s =
     (if wf_nreqs s \<le> r then None
      else case wf_rstate (wf_reqs s r) of
        WfLoad v \<Rightarrow>
          (case res of
             Ok b \<Rightarrow>
               Some (s\<lparr>wf_serverBuildCache := (wf_serverBuildCache s)(v := Some b),
                       wf_reqs := (wf_reqs s)(r := (wf_reqs s r)\<lparr>wf_serverBuild := Some b,
                                                                  wf_rstate := WfServed\<rparr>)\<rparr>)
           | Err \<Rightarrow> Some (s\<lparr>wf_reqs := (wf_reqs s)(r := (wf_reqs s r)\<lparr>wf_rstate := WfErrored\<rparr>)\<rparr>))
      | _ \<Rightarrow> None)"

text \<open>
  A continuation runs.  After \<open>await restarting\<close> the hook attaches
  \<open>vite.server\<close>; the hook of \<open>/\<close> first resets \<open>waterfallCounter\<close> and
  \<open>restarting\<close>; the top level starts to listen.  A rejected promise makes the hook
  throw, and ends the process at the top level.
\<close>

definition wf_tick :: "wf_state \<Rightarrow> wf_state option" where
  "wf_tick s =
     (case wf_ready s of
        [] \<Rightarrow> None
      | m # ms \<Rightarrow>
          (let s0 = s\<lparr>wf_ready := ms\<rparr>
           in Some (case m of
                WfFulfilled (WfBind r) \<Rightarrow> wf_attach r (vite_server s0) s0
              | WfFulfilled (WfRoot r) \<Rightarrow>
                  (let s1 = s0\<lparr>waterfallCounter := 0, restarting := None\<rparr>
                   in wf_attach r (vite_server s1) s1)
              | WfFulfilled WfListen \<Rightarrow> s0\<lparr>listening := True\<rparr>
              | WfRejected (WfBind r) \<Rightarrow>
                  s0\<lparr>wf_reqs := (wf_reqs s0)(r := (wf_reqs s0 r)\<lparr>wf_rstate := WfErrored\<rparr>)\<rparr>
              | WfRejected (WfRoot r) \<Rightarrow>
                  s0\<lparr>wf_reqs := (wf_reqs s0)(r := (wf_reqs s0 r)\<lparr>wf_rstate := WfErrored\<rparr>)\<rparr>
              | WfRejected WfListen \<Rightarrow> s0)))"

datatype wf_event =
    WfRequest bool
  | WfRestartIO nat io
  | WfFsIO nat io
  | WfBuildIO nat io
  | WfTick

text \<open>
  One turn of the event loop.  Requests arrive only once the server listens; an I/O
  callback runs only when no microtask is left.
\<close>

definition wf_step :: "wf_event \<Rightarrow> wf_state \<Rightarrow> wf_state option" where
  "wf_step e s =
     (case e of
        WfTick \<Rightarrow> wf_tick s
      | _ \<Rightarrow>
          if wf_ready s \<noteq> [] then None
          else (case e of
                  WfRequest root \<Rightarrow> if listening s then Some (wf_request root s) else None
                | WfRestartIO k r \<Rightarrow> wf_restartIO k r s
                | WfFsIO r res \<Rightarrow> wf_fsIO r res s
                | WfBuildIO r res \<Rightarrow> wf_buildIO r res s
                | WfTick \<Rightarrow> None))"

fun wf_run :: "wf_event list \<Rightarrow> wf_state \<Rightarrow> wf_state option" where
  "wf_run [] s = Some s"
| "wf_run (e # es) s = (case wf_step e s of None \<Rightarrow> None | Some s' \<Rightarrow> wf_run es s')"

definition pc_ok :: "nat \<Rightarrow> swap \<Rightarrow> bool" where
  "pc_ok k w =
     (case pc w of
        AwaitRm \<Rightarrow> newServer w = None
      | AwaitPort \<Rightarrow> newServer w = None
      | AwaitCreate p \<Rightarrow> newServer w = None
      | AwaitLoad n \<Rightarrow> n = Suc k \<and> newServer w = Some n
      | AwaitClose \<Rightarrow> newServer w = Some (Suc k)
      | SwapDone \<Rightarrow> newServer w = Some (Suc k)
      | SwapFailed \<Rightarrow> newServer w = None \<or> newServer w = Some (Suc k))"

definition inv_core :: "state \<Rightarrow> bool" where
  "inv_core s \<longleftrightarrow>
     (case restartPromise s of
        None \<Rightarrow> (\<forall>j<nswaps s. pc (swaps s j) = SwapDone) \<and> serverIdCounter s = nswaps s
      | Some k \<Rightarrow>
          nswaps s = Suc k \<and> pc (swaps s k) \<noteq> SwapDone \<and>
          (\<forall>j<k. pc (swaps s j) = SwapDone) \<and>
          serverIdCounter s = (if newServer (swaps s k) = None then k else Suc k)) \<and>
     activeVite s = (if serverIdCounter s = 0 then None else Some (serverIdCounter s)) \<and>
     (activeHmrPort s = None \<longleftrightarrow> serverIdCounter s = 0) \<and>
     (\<forall>k<nswaps s. oldServer (swaps s k) = (if k = 0 then None else Some k) \<and>
                    pc_ok k (swaps s k)) \<and>
     (\<forall>g b. serverBuildCache s g = Some b \<longrightarrow> 1 \<le> g \<and> g \<le> serverIdCounter s) \<and>
     (\<forall>r v. rstate (reqs s r) = ReqLoad v \<longrightarrow> 1 \<le> v \<and> v \<le> serverIdCounter s)"

fun task_ok :: "nat \<Rightarrow> nat \<Rightarrow> microtask \<Rightarrow> bool" where
  "task_ok nr nc (ResumeReq r) = (r < nr)"
| "task_ok nr nc (BindReq r) = (r < nr)"
| "task_ok nr nc (ThrowReq r) = (r < nr)"
| "task_ok nr nc (ResumeConn c) = (c < nc)"

definition inv_queue :: "state \<Rightarrow> bool" where
  "inv_queue s \<longleftrightarrow>
     (\<forall>r\<in>set (pendingHttpRequests s). r < nreqs s) \<and> distinct (pendingHttpRequests s) \<and>
     (\<forall>c\<in>set (pendingWsConnections s). c < nconns s) \<and> distinct (pendingWsConnections s) \<and>
     (\<forall>k. \<forall>r\<in>set (waiters (swaps s k)). r < nreqs s) \<and>
     (\<forall>m\<in>set (ready s). task_ok (nreqs s) (nconns s) m)"

definition loading :: "swap_pc \<Rightarrow> bool" where
  "loading p = (case p of AwaitLoad n \<Rightarrow> True | _ \<Rightarrow> False)"

definition unreleased :: "state \<Rightarrow> nat \<Rightarrow> bool" where
  "unreleased s r \<longleftrightarrow>
     (r \<in> set (pendingHttpRequests s) \<longrightarrow>
        (case restartPromise s of None \<Rightarrow> True | Some k \<Rightarrow> \<not> loading (pc (swaps s k)))) \<and>
     ResumeReq r \<notin> set (ready s) \<and> BindReq r \<notin> set (ready s) \<and>
     (\<forall>k. r \<notin> set (waiters (swaps s k))) \<and>
     viteServer (reqs s r) = None"

definition held_ok :: "state \<Rightarrow> nat \<Rightarrow> server option \<Rightarrow> swap_pc \<Rightarrow> bool" where
  "held_ok s r a p \<longleftrightarrow>
     (if loading p then p = AwaitLoad (the a) \<and> a \<noteq> None
      else (case a of
              None \<Rightarrow> True
            | Some x \<Rightarrow>
                x \<le> serverIdCounter s \<and>
                (x = serverIdCounter s \<longrightarrow> unreleased s r) \<and>
                (case viteServer (reqs s r) of None \<Rightarrow> True | Some g \<Rightarrow> x < g)))"

definition inv_held :: "state \<Rightarrow> bool" where
  "inv_held s \<longleftrightarrow> (\<forall>r. case held (reqs s r) of None \<Rightarrow> True | Some (a, p) \<Rightarrow> held_ok s r a p)"

definition settled_hold :: "state \<Rightarrow> nat \<Rightarrow> bool" where
  "settled_hold s r \<longleftrightarrow>
     (case held (reqs s r) of
        None \<Rightarrow> True
      | Some (a, p) \<Rightarrow>
          loading p \<or> (case a of None \<Rightarrow> True | Some x \<Rightarrow> x < serverIdCounter s))"

definition closing_started :: "state \<Rightarrow> server \<Rightarrow> bool" where
  "closing_started s g \<longleftrightarrow>
     1 \<le> g \<and> g < nswaps s \<and> (pc (swaps s g) = AwaitClose \<or> pc (swaps s g) = SwapDone)"

definition inv_trace :: "state \<Rightarrow> bool" where
  "inv_trace s \<longleftrightarrow>
     (\<forall>g. count_list (trace s) (CacheDelete g) = (if closing_started s g then 1 else 0) \<and>
          count_list (trace s) (CloseServer g) = (if closing_started s g then 1 else 0)) \<and>
     (\<forall>c p. Connect c p \<in> set (trace s) \<longrightarrow> c < nconns s)"

text \<open>
  After the promise of restart \<open>k\<close> was rejected in state \<open>s\<close>: the later
  state \<open>s'\<close> still holds that promise, and no server or restart was added.
\<close>

definition stuck :: "nat \<Rightarrow> state \<Rightarrow> state \<Rightarrow> bool" where
  "stuck k s s' \<longleftrightarrow>
     restartPromise s' = Some k \<and> pc (swaps s' k) = SwapFailed \<and> nswaps s' = nswaps s \<and>
     serverIdCounter s' = serverIdCounter s \<and> activeVite s' = activeVite s"




text \<open>
  State \<open>s'\<close> has the restarts of state \<open>s\<close>: the same restart promise, the
  same number of restart bodies, each at the same point and with the same new server, and
  the same servers.
\<close>

definition same_swaps :: "state \<Rightarrow> state \<Rightarrow> bool" where
  "same_swaps s s' \<longleftrightarrow>
     restartPromise s' = restartPromise s \<and> nswaps s' = nswaps s \<and>
     serverIdCounter s' = serverIdCounter s \<and> activeVite s' = activeVite s \<and>
     (\<forall>j. pc (swaps s' j) = pc (swaps s j) \<and> newServer (swaps s' j) = newServer (swaps s j))"

text \<open>
  The waterfall server while only requests other than \<open>/\<close> arrive.  Before it
  listens, the start-up restart is the only one and no request exists.
\<close>

fun wf_boot_ok :: "wf_state \<Rightarrow> wf_pc \<Rightarrow> bool" where
  "wf_boot_ok s WfAwaitPorts =
     (wf_serverIdCounter s = 0 \<and> vite_server s = None \<and> wf_ready s = [] \<and>
      wf_waiters (wf_restarts s 0) = [WfListen])"
| "wf_boot_ok s WfAwaitCreate =
     (wf_serverIdCounter s = 0 \<and> vite_server s = None \<and> wf_ready s = [] \<and>
      wf_waiters (wf_restarts s 0) = [WfListen])"
| "wf_boot_ok s (WfAwaitLoad n) =
     (n = 1 \<and> wf_serverIdCounter s = 1 \<and> vite_server s = Some 1 \<and> wf_ready s = [] \<and>
      wf_waiters (wf_restarts s 0) = [WfListen])"
| "wf_boot_ok s WfDone =
     (wf_serverIdCounter s = 1 \<and> vite_server s = Some 1 \<and>
      wf_serverBuildCache s 1 \<noteq> None \<and> wf_ready s = [WfFulfilled WfListen])"
| "wf_boot_ok s WfFailed = (wf_ready s = [] \<or> wf_ready s = [WfRejected WfListen])"

text \<open>
  Once the request at position \<open>waterfallRestartOn\<close> has started the second restart:
  the requests from that position on wait for it, have been released by it, or are bound
  to the server it created.
\<close>

definition wf_late :: "wf_state \<Rightarrow> nat set" where
  "wf_late s = {r. waterfallRestartOn \<le> Suc r \<and> r < wf_nreqs s}"

definition wf_parked :: "wf_state \<Rightarrow> bool" where
  "wf_parked s \<longleftrightarrow>
     wf_ready s = [] \<and>
     (\<forall>t\<in>set (wf_waiters (wf_restarts s 1)). \<exists>r\<in>wf_late s. t = WfBind r) \<and>
     (\<forall>r\<in>wf_late s. wf_viteServer (wf_reqs s r) = None \<and>
                      WfBind r \<in> set (wf_waiters (wf_restarts s 1)))"

fun wf_swap_ok :: "wf_state \<Rightarrow> wf_pc \<Rightarrow> bool" where
  "wf_swap_ok s WfAwaitPorts =
     (wf_serverIdCounter s = 1 \<and> vite_server s = Some 1 \<and> wf_parked s)"
| "wf_swap_ok s WfAwaitCreate =
     (wf_serverIdCounter s = 1 \<and> vite_server s = Some 1 \<and> wf_parked s)"
| "wf_swap_ok s (WfAwaitLoad n) =
     (n = 2 \<and> wf_serverIdCounter s = 2 \<and> vite_server s = Some 2 \<and> wf_parked s)"
| "wf_swap_ok s WfDone =
     (wf_serverIdCounter s = 2 \<and> vite_server s = Some 2 \<and>
      wf_serverBuildCache s 2 \<noteq> None \<and>
      (\<forall>m\<in>set (wf_ready s). \<exists>r\<in>wf_late s. m = WfFulfilled (WfBind r)) \<and>
      (\<forall>r\<in>wf_late s. wf_viteServer (wf_reqs s r) = Some 2 \<or>
                       (wf_viteServer (wf_reqs s r) = None \<and>
                        WfFulfilled (WfBind r) \<in> set (wf_ready s))))"
| "wf_swap_ok s WfFailed =
     ((\<forall>m\<in>set (wf_ready s). \<exists>r\<in>wf_late s. m = WfRejected (WfBind r)) \<and>
      (\<forall>r\<in>wf_late s. wf_viteServer (wf_reqs s r) = None))"

definition wf_inv :: "wf_state \<Rightarrow> bool" where
  "wf_inv s \<longleftrightarrow>
     waterfallCounter s = wf_nreqs s \<and>
     (\<forall>r. wf_rstate (wf_reqs s r) = WfWaiting \<or> wf_rstate (wf_reqs s r) = WfServed \<or>
          wf_rstate (wf_reqs s r) = WfErrored) \<and>
     (if \<not> listening s
      then wf_nreqs s = 0 \<and> wf_nrestarts s = 1 \<and> restarting s = None \<and>
           wf_boot_ok s (wf_pc (wf_restarts s 0))
      else wf_pc (wf_restarts s 0) = WfDone \<and> wf_serverBuildCache s 1 \<noteq> None \<and>
           (\<forall>r<wf_nreqs s. Suc r < waterfallRestartOn \<longrightarrow>
                wf_viteServer (wf_reqs s r) = Some 1) \<and>
           (if wf_nreqs s < waterfallRestartOn
            then wf_nrestarts s = 1 \<and> restarting s = None \<and> wf_serverIdCounter s = 1 \<and>
                 vite_server s = Some 1 \<and> wf_ready s = []
            else wf_nrestarts s = 2 \<and> restarting s = Some 1 \<and>
                 wf_swap_ok s (wf_pc (wf_restarts s 1))))"

section \<open>Event sequences used as concrete inputs\<close>

text \<open>
  \<open>boot\<close>: the first request starts the first server through
  \<open>ensureFirstServer\<close>; the cache directory is removed, a port is found, the server is
  created; its build is still loading.
\<close>

definition boot :: "event list" where
  "boot = [HttpRequest False, SwapIO 0 (Ok 0), SwapIO 0 (Ok 5173), SwapIO 0 (Ok 0)]"

text \<open>
  \<open>first_request\<close>: the first request starts the first server.
  \<open>more_triggers\<close>: while that start is running, a request for \<open>env.mjs\<close>
  calls \<open>restartVite\<close> again, and an upgrade and two more requests arrive.
  \<open>two_triggers_create_fails\<close>: the first request and a request for
  \<open>env.mjs\<close> both call \<open>restartVite\<close>; \<open>createServer\<close> then throws.
\<close>

definition first_request :: "event list" where
  "first_request = [HttpRequest False]"

definition more_triggers :: "event list" where
  "more_triggers = [HttpRequest True, Upgrade, HttpRequest True, HttpRequest False]"

definition two_triggers_create_fails :: "event list" where
  "two_triggers_create_fails =
     [HttpRequest False, HttpRequest True, SwapIO 0 (Ok 0), SwapIO 0 (Ok 5173), SwapIO 0 Err]"




text \<open>
  \<open>restart_on_env\<close>: the first server is up and the first request served; a request
  for \<open>env.mjs\<close> triggers the restart, the second server is created and loaded, the
  held request runs on; \<open>oldServer.close()\<close> has not returned yet.
\<close>

definition restart_on_env :: "event list" where
  "restart_on_env =
     boot @ [SwapIO 0 (Ok 7), Tick,
             HttpRequest True, SwapIO 1 (Ok 5174), SwapIO 1 (Ok 0), SwapIO 1 (Ok 8),
             Tick, Tick]"

text \<open>\<open>held_while_closing\<close>: one more request arrives before the close returns.\<close>

definition held_while_closing :: "event list" where
  "held_while_closing = restart_on_env @ [HttpRequest False, SwapIO 1 (Ok 0)]"

text \<open>
  \<open>held_before_preload\<close>: a request and an upgrade arrive while the first server's
  build is loading.  \<open>two_of_each_held\<close>: two upgrades and two requests do.
\<close>

definition held_before_preload :: "event list" where
  "held_before_preload = boot @ [HttpRequest False, Upgrade]"

definition two_of_each_held :: "event list" where
  "two_of_each_held = boot @ [Upgrade, HttpRequest False, Upgrade, HttpRequest True]"

text \<open>
  \<open>disconnect_while_held\<close>: an upgrade is parked while the build is loading, its
  client goes away, the load completes, the first microtask runs.
\<close>

definition disconnect_while_held :: "event list" where
  "disconnect_while_held = boot @ [Upgrade, ClientClose 0, SwapIO 0 (Ok 7), Tick]"

text \<open>
  \<open>create_fails\<close>: \<open>createServer\<close> throws during the first start; later a
  request for \<open>env.mjs\<close> arrives.  \<open>load_fails\<close>: the server is created but
  loading its build throws; later a request for \<open>env.mjs\<close> arrives.
\<close>

definition before_create :: "event list" where
  "before_create = [HttpRequest False, SwapIO 0 (Ok 0), SwapIO 0 (Ok 5173)]"

definition create_fails :: "event list" where
  "create_fails = before_create @ [SwapIO 0 Err, Tick, HttpRequest True]"

definition load_fails :: "event list" where
  "load_fails = boot @ [SwapIO 0 Err, Tick, HttpRequest True]"

text \<open>
  The waterfall server.  \<open>wf_startup\<close>: the start-up restart finds its ports, creates
  server 1 and loads its build; the top level goes on to listen.  \<open>waterfall\<close>: 39
  requests other than \<open>/\<close> arrive, the twentieth starting the restart; then the
  restart finds its ports, creates server 2 and loads its build, and the twenty
  continuations run.
\<close>

definition wf_startup :: "wf_event list" where
  "wf_startup = [WfRestartIO 0 (Ok 0), WfRestartIO 0 (Ok 0), WfRestartIO 0 (Ok 7), WfTick]"

definition waterfall :: "wf_event list" where
  "waterfall =
     wf_startup @ replicate 39 (WfRequest False) @
     [WfRestartIO 1 (Ok 0), WfRestartIO 1 (Ok 0), WfRestartIO 1 (Ok 8)] @ replicate 20 WfTick"

lemma flushHttp_eq:
  "flushHttp rs s = s\<lparr>ready := ready s @ map ResumeReq rs, trace := trace s @ map ResolveHttp rs\<rparr>"
  by (induction rs arbitrary: s) simp_all

lemma flushWs_eq:
  "flushWs cs s = s\<lparr>ready := ready s @ map ResumeConn cs, trace := trace s @ map ResolveWs cs\<rparr>"
  by (induction cs arbitrary: s) simp_all

lemma restartVite_Some: "restartPromise s = Some k \<Longrightarrow> restartVite s = (s, k)"
  by (simp add: restartVite_def)

lemma restartVite_None:
  "restartPromise s = None \<Longrightarrow>
   restartVite s = ((startBody s)\<lparr>restartPromise := Some (nswaps s)\<rparr>, nswaps s)"
  by (simp add: restartVite_def)

lemma afterLoad_closing:
  "oldServer (swaps s k) = Some old \<Longrightarrow>
   afterLoad k s =
     s\<lparr>pendingHttpRequests := [], pendingWsConnections := [],
       ready := ready s @ map ResumeReq (pendingHttpRequests s)
                @ map ResumeConn (pendingWsConnections s),
       trace := trace s @ map ResolveHttp (pendingHttpRequests s)
                @ map ResolveWs (pendingWsConnections s) @ [CacheDelete old, CloseServer old],
       serverBuildCache := (serverBuildCache s)(old := None),
       swaps := (swaps s)(k := (swaps s k)\<lparr>pc := AwaitClose\<rparr>)\<rparr>"
  by (simp add: afterLoad_def Let_def flushHttp_eq flushWs_eq)

lemma afterLoad_finishing:
  "oldServer (swaps s k) = None \<Longrightarrow>
   afterLoad k s =
     s\<lparr>pendingHttpRequests := [], pendingWsConnections := [],
       ready := ready s @ map ResumeReq (pendingHttpRequests s)
                @ map ResumeConn (pendingWsConnections s) @ map BindReq (waiters (swaps s k)),
       trace := trace s @ map ResolveHttp (pendingHttpRequests s)
                @ map ResolveWs (pendingWsConnections s),
       restartPromise := None,
       swaps := (swaps s)(k := (swaps s k)\<lparr>pc := SwapDone, waiters := []\<rparr>)\<rparr>"
  by (simp add: afterLoad_def Let_def flushHttp_eq flushWs_eq finishSwap_def settle_def)

lemma afterCreate_miss:
  "serverBuildCache s (Suc (serverIdCounter s)) = None \<Longrightarrow>
   afterCreate k p s =
     s\<lparr>serverIdCounter := Suc (serverIdCounter s),
       activeVite := Some (Suc (serverIdCounter s)),
       activeHmrPort := Some p,
       swaps := (swaps s)(k := (swaps s k)\<lparr>newServer := Some (Suc (serverIdCounter s)),
                                            pc := AwaitLoad (Suc (serverIdCounter s))\<rparr>),
       trace := trace s @ [Activate (Suc (serverIdCounter s)),
                           LoadModule (Suc (serverIdCounter s))]\<rparr>"
  by (simp add: afterCreate_def Let_def getServerBuild_def)

lemma afterCreate_hit:
  "serverBuildCache s (Suc (serverIdCounter s)) = Some b \<Longrightarrow>
   afterCreate k p s =
     afterLoad k (s\<lparr>serverIdCounter := Suc (serverIdCounter s),
       activeVite := Some (Suc (serverIdCounter s)),
       activeHmrPort := Some p,
       swaps := (swaps s)(k := (swaps s k)\<lparr>newServer := Some (Suc (serverIdCounter s))\<rparr>),
       trace := trace s @ [Activate (Suc (serverIdCounter s))]\<rparr>)"
  by (simp add: afterCreate_def Let_def getServerBuild_def)

lemma httpRequest_held:
  "restartPromise s = Some k \<Longrightarrow>
   httpRequest b s =
     s\<lparr>reqs := (reqs s)(nreqs s := newRequest\<lparr>held := Some (activeVite s, pc (swaps s k))\<rparr>),
       nreqs := Suc (nreqs s),
       hasTriggeredRestart := (hasTriggeredRestart s \<or> b),
       pendingHttpRequests := pendingHttpRequests s @ [nreqs s]\<rparr>"
  by (cases "b \<and> \<not> hasTriggeredRestart s") (auto simp add: httpRequest_def Let_def restartVite_Some)

lemma httpRequest_trigger:
  "restartPromise s = None \<Longrightarrow> \<not> hasTriggeredRestart s \<Longrightarrow>
   httpRequest True s =
     s\<lparr>swaps := (swaps s)(nswaps s :=
            \<lparr>oldServer = activeVite s, oldServerId = serverIdCounter s, newServer = None,
             pc = (if isFirstStart s then AwaitRm else AwaitPort), waiters = []\<rparr>),
       nswaps := Suc (nswaps s),
       trace := trace s @ [if isFirstStart s then RmCache else GetPort],
       reqs := (reqs s)(nreqs s := newRequest\<lparr>held :=
               Some (activeVite s, if isFirstStart s then AwaitRm else AwaitPort)\<rparr>),
       nreqs := Suc (nreqs s),
       hasTriggeredRestart := True,
       restartPromise := Some (nswaps s),
       pendingHttpRequests := pendingHttpRequests s @ [nreqs s]\<rparr>"
  by (simp add: httpRequest_def Let_def restartVite_None startBody_def)

lemma httpRequest_ensure:
  "restartPromise s = None \<Longrightarrow> \<not> (b \<and> \<not> hasTriggeredRestart s) \<Longrightarrow>
   httpRequest b s =
     hookEnsure (nreqs s) (s\<lparr>reqs := (reqs s)(nreqs s := newRequest), nreqs := Suc (nreqs s)\<rparr>)"
  by (auto simp add: httpRequest_def Let_def)

lemma hookBind_none:
  "activeVite s = None \<Longrightarrow>
   hookBind r s = s\<lparr>reqs := (reqs s)(r := (reqs s r)\<lparr>viteServer := None, rstate := ReqFailed\<rparr>)\<rparr>"
  by (simp add: hookBind_def)

lemma hookBind_hit:
  "activeVite s = Some v \<Longrightarrow> serverBuildCache s v = Some b \<Longrightarrow>
   hookBind r s =
     s\<lparr>reqs := (reqs s)(r := (reqs s r)\<lparr>viteServer := Some v, serverBuild := Some b,
                                         rstate := ReqDone\<rparr>)\<rparr>"
  by (simp add: hookBind_def getServerBuild_def)

lemma hookBind_miss:
  "activeVite s = Some v \<Longrightarrow> serverBuildCache s v = None \<Longrightarrow>
   hookBind r s =
     s\<lparr>reqs := (reqs s)(r := (reqs s r)\<lparr>viteServer := Some v, rstate := ReqLoad v\<rparr>),
       trace := trace s @ [LoadModule v]\<rparr>"
  by (simp add: hookBind_def getServerBuild_def)

lemma step_leaves [consumes 1, case_names held trigger arrive upgrade_held upgrade_now
    client_proxying client_other rm port_ok swap_err create_miss create_hit_closing
    create_hit_finishing load_closing load_finishing closed build_ok build_err
    resume bind_none bind_hit bind_miss throw conn]:
  assumes "step e s = Some s'"
  obtains
    (held) b k where "ready s = []" "restartPromise s = Some k"
      "s' = s\<lparr>reqs := (reqs s)(nreqs s := newRequest\<lparr>held := Some (activeVite s, pc (swaps s k))\<rparr>),
              nreqs := Suc (nreqs s),
              hasTriggeredRestart := (hasTriggeredRestart s \<or> b),
              pendingHttpRequests := pendingHttpRequests s @ [nreqs s]\<rparr>"
  | (trigger) "ready s = []" "restartPromise s = None" "\<not> hasTriggeredRestart s"
      "s' = s\<lparr>swaps := (swaps s)(nswaps s :=
                 \<lparr>oldServer = activeVite s, oldServerId = serverIdCounter s, newServer = None,
                  pc = (if isFirstStart s then AwaitRm else AwaitPort), waiters = []\<rparr>),
              nswaps := Suc (nswaps s),
              trace := trace s @ [if isFirstStart s then RmCache else GetPort],
              reqs := (reqs s)(nreqs s := newRequest\<lparr>held :=
                 Some (activeVite s, if isFirstStart s then AwaitRm else AwaitPort)\<rparr>),
              nreqs := Suc (nreqs s),
              hasTriggeredRestart := True,
              restartPromise := Some (nswaps s),
              pendingHttpRequests := pendingHttpRequests s @ [nreqs s]\<rparr>"
  | (arrive) "ready s = []" "restartPromise s = None"
      "s' = hookEnsure (nreqs s)
              (s\<lparr>reqs := (reqs s)(nreqs s := newRequest), nreqs := Suc (nreqs s)\<rparr>)"
  | (upgrade_held) k where "ready s = []" "restartPromise s = Some k"
      "s' = s\<lparr>conns := (conns s)(nconns s := newConn\<lparr>cstate := ConnHeld\<rparr>),
              nconns := Suc (nconns s),
              pendingWsConnections := pendingWsConnections s @ [nconns s]\<rparr>"
  | (upgrade_now) "ready s = []" "restartPromise s = None"
      "s' = proxy (nconns s) (s\<lparr>conns := (conns s)(nconns s := newConn), nconns := Suc (nconns s)\<rparr>)"
  | (client_proxying) c p where "ready s = []" "c < nconns s" "\<not> clientGone (conns s c)"
      "cstate (conns s c) = ConnProxying p"
      "s' = s\<lparr>conns := (conns s)(c := (conns s c)\<lparr>clientGone := True, cstate := ConnClosed\<rparr>),
              trace := trace s @ [DestroyTarget c]\<rparr>"
  | (client_other) c where "ready s = []" "c < nconns s" "\<not> clientGone (conns s c)"
      "\<forall>p. cstate (conns s c) \<noteq> ConnProxying p"
      "s' = s\<lparr>conns := (conns s)(c := (conns s c)\<lparr>clientGone := True\<rparr>)\<rparr>"
  | (rm) k where "ready s = []" "k < nswaps s" "pc (swaps s k) = AwaitRm"
      "s' = s\<lparr>isFirstStart := False, swaps := (swaps s)(k := (swaps s k)\<lparr>pc := AwaitPort\<rparr>),
              trace := trace s @ [GetPort]\<rparr>"
  | (port_ok) k p where "ready s = []" "k < nswaps s" "pc (swaps s k) = AwaitPort"
      "s' = s\<lparr>swaps := (swaps s)(k := (swaps s k)\<lparr>pc := AwaitCreate p\<rparr>),
              trace := trace s @ [CreateServer p]\<rparr>"
  | (swap_err) k where "ready s = []" "k < nswaps s"
      "pc (swaps s k) = AwaitPort \<or> (\<exists>p. pc (swaps s k) = AwaitCreate p)
         \<or> (\<exists>n. pc (swaps s k) = AwaitLoad n)"
      "s' = s\<lparr>swaps := (swaps s)(k := (swaps s k)\<lparr>pc := SwapFailed, waiters := []\<rparr>),
              ready := map ThrowReq (waiters (swaps s k))\<rparr>"
  | (create_miss) k p where "ready s = []" "k < nswaps s" "pc (swaps s k) = AwaitCreate p"
      "serverBuildCache s (Suc (serverIdCounter s)) = None"
      "s' = s\<lparr>serverIdCounter := Suc (serverIdCounter s),
              activeVite := Some (Suc (serverIdCounter s)),
              activeHmrPort := Some p,
              swaps := (swaps s)(k := (swaps s k)\<lparr>newServer := Some (Suc (serverIdCounter s)),
                                                   pc := AwaitLoad (Suc (serverIdCounter s))\<rparr>),
              trace := trace s @ [Activate (Suc (serverIdCounter s)),
                                  LoadModule (Suc (serverIdCounter s))]\<rparr>"
  | (create_hit_closing) k p b old where "ready s = []" "k < nswaps s"
      "pc (swaps s k) = AwaitCreate p"
      "serverBuildCache s (Suc (serverIdCounter s)) = Some b" "oldServer (swaps s k) = Some old"
      "s' = s\<lparr>serverIdCounter := Suc (serverIdCounter s),
              activeVite := Some (Suc (serverIdCounter s)),
              activeHmrPort := Some p,
              pendingHttpRequests := [], pendingWsConnections := [],
              ready := map ResumeReq (pendingHttpRequests s)
                       @ map ResumeConn (pendingWsConnections s),
              trace := trace s @ [Activate (Suc (serverIdCounter s))]
                       @ map ResolveHttp (pendingHttpRequests s)
                       @ map ResolveWs (pendingWsConnections s)
                       @ [CacheDelete old, CloseServer old],
              serverBuildCache := (serverBuildCache s)(old := None),
              swaps := (swaps s)(k := (swaps s k)\<lparr>newServer := Some (Suc (serverIdCounter s)),
                                                   pc := AwaitClose\<rparr>)\<rparr>"
  | (create_hit_finishing) k p b where "ready s = []" "k < nswaps s"
      "pc (swaps s k) = AwaitCreate p"
      "serverBuildCache s (Suc (serverIdCounter s)) = Some b" "oldServer (swaps s k) = None"
      "s' = s\<lparr>serverIdCounter := Suc (serverIdCounter s),
              activeVite := Some (Suc (serverIdCounter s)),
              activeHmrPort := Some p,
              pendingHttpRequests := [], pendingWsConnections := [],
              ready := map ResumeReq (pendingHttpRequests s)
                       @ map ResumeConn (pendingWsConnections s)
                       @ map BindReq (waiters (swaps s k)),
              trace := trace s @ [Activate (Suc (serverIdCounter s))]
                       @ map ResolveHttp (pendingHttpRequests s)
                       @ map ResolveWs (pendingWsConnections s),
              restartPromise := None,
              swaps := (swaps s)(k := (swaps s k)\<lparr>newServer := Some (Suc (serverIdCounter s)),
                                                   pc := SwapDone, waiters := []\<rparr>)\<rparr>"
  | (load_closing) k n b old where "ready s = []" "k < nswaps s" "pc (swaps s k) = AwaitLoad n"
      "oldServer (swaps s k) = Some old"
      "s' = s\<lparr>pendingHttpRequests := [], pendingWsConnections := [],
              ready := map ResumeReq (pendingHttpRequests s)
                       @ map ResumeConn (pendingWsConnections s),
              trace := trace s @ [CacheSet n] @ map ResolveHttp (pendingHttpRequests s)
                       @ map ResolveWs (pendingWsConnections s)
                       @ [CacheDelete old, CloseServer old],
              serverBuildCache := (serverBuildCache s)(n := Some b, old := None),
              swaps := (swaps s)(k := (swaps s k)\<lparr>pc := AwaitClose\<rparr>)\<rparr>"
  | (load_finishing) k n b where "ready s = []" "k < nswaps s" "pc (swaps s k) = AwaitLoad n"
      "oldServer (swaps s k) = None"
      "s' = s\<lparr>pendingHttpRequests := [], pendingWsConnections := [],
              ready := map ResumeReq (pendingHttpRequests s)
                       @ map ResumeConn (pendingWsConnections s)
                       @ map BindReq (waiters (swaps s k)),
              trace := trace s @ [CacheSet n] @ map ResolveHttp (pendingHttpRequests s)
                       @ map ResolveWs (pendingWsConnections s),
              serverBuildCache := (serverBuildCache s)(n := Some b),
              restartPromise := None,
              swaps := (swaps s)(k := (swaps s k)\<lparr>pc := SwapDone, waiters := []\<rparr>)\<rparr>"
  | (closed) k where "ready s = []" "k < nswaps s" "pc (swaps s k) = AwaitClose"
      "s' = s\<lparr>restartPromise := None,
              swaps := (swaps s)(k := (swaps s k)\<lparr>pc := SwapDone, waiters := []\<rparr>),
              ready := map BindReq (waiters (swaps s k))\<rparr>"
  | (build_ok) r v b where "ready s = []" "r < nreqs s" "rstate (reqs s r) = ReqLoad v"
      "s' = s\<lparr>serverBuildCache := (serverBuildCache s)(v := Some b),
              trace := trace s @ [CacheSet v],
              reqs := (reqs s)(r := (reqs s r)\<lparr>serverBuild := Some b, rstate := ReqDone\<rparr>)\<rparr>"
  | (build_err) r v where "ready s = []" "r < nreqs s" "rstate (reqs s r) = ReqLoad v"
      "s' = s\<lparr>reqs := (reqs s)(r := (reqs s r)\<lparr>rstate := ReqFailed\<rparr>)\<rparr>"
  | (resume) r ms where "ready s = ResumeReq r # ms" "s' = hookEnsure r (s\<lparr>ready := ms\<rparr>)"
  | (bind_none) r ms where "ready s = BindReq r # ms" "activeVite s = None"
      "s' = s\<lparr>ready := ms,
              reqs := (reqs s)(r := (reqs s r)\<lparr>viteServer := None, rstate := ReqFailed\<rparr>)\<rparr>"
  | (bind_hit) r ms v b where "ready s = BindReq r # ms" "activeVite s = Some v"
      "serverBuildCache s v = Some b"
      "s' = s\<lparr>ready := ms,
              reqs := (reqs s)(r := (reqs s r)\<lparr>viteServer := Some v, serverBuild := Some b,
                                                rstate := ReqDone\<rparr>)\<rparr>"
  | (bind_miss) r ms v where "ready s = BindReq r # ms" "activeVite s = Some v"
      "serverBuildCache s v = None"
      "s' = s\<lparr>ready := ms,
              reqs := (reqs s)(r := (reqs s r)\<lparr>viteServer := Some v, rstate := ReqLoad v\<rparr>),
              trace := trace s @ [LoadModule v]\<rparr>"
  | (throw) r ms where "ready s = ThrowReq r # ms"
      "s' = s\<lparr>ready := ms, reqs := (reqs s)(r := (reqs s r)\<lparr>rstate := ReqFailed\<rparr>)\<rparr>"
  | (conn) c ms where "ready s = ResumeConn c # ms" "s' = proxy c (s\<lparr>ready := ms\<rparr>)"
proof (cases e)
  case (HttpRequest b)
  with assms have r: "ready s = []" and s': "s' = httpRequest b s"
    by (simp_all add: step_def split: if_splits)
  show ?thesis
  proof (cases "restartPromise s")
    case (Some k)
    show ?thesis
      by (rule held[where b = b, OF r Some]) (simp add: s' httpRequest_held[OF Some])
  next
    case None
    show ?thesis
    proof (cases "b \<and> \<not> hasTriggeredRestart s")
      case True
      then have nt: "\<not> hasTriggeredRestart s" and b: "b = True" by simp_all
      show ?thesis
        by (rule trigger[OF r None nt]) (simp add: s' b httpRequest_trigger[OF None nt])
    next
      case False
      show ?thesis
        by (rule arrive[OF r None]) (simp add: s' httpRequest_ensure[OF None False])
    qed
  qed
next
  case Upgrade
  with assms have r: "ready s = []" and s': "s' = upgrade s"
    by (simp_all add: step_def split: if_splits)
  show ?thesis
  proof (cases "restartPromise s")
    case (Some k)
    show ?thesis
      by (rule upgrade_held[OF r Some]) (simp add: s' upgrade_def Let_def Some)
  next
    case None
    show ?thesis
      by (rule upgrade_now[OF r None]) (simp add: s' upgrade_def Let_def None)
  qed
next
  case (ClientClose c)
  with assms have r: "ready s = []" and c: "clientClose c s = Some s'"
    by (simp_all add: step_def split: if_splits)
  then have b: "c < nconns s" and g: "\<not> clientGone (conns s c)"
    by (auto simp: clientClose_def split: if_splits)
  show ?thesis
  proof (cases "cstate (conns s c)")
    case (ConnProxying p)
    show ?thesis
      by (rule client_proxying[OF r b g ConnProxying])
         (use c b g ConnProxying in \<open>simp add: clientClose_def Let_def\<close>)
  next
    case ConnNew
    then have n: "\<forall>p. cstate (conns s c) \<noteq> ConnProxying p" by simp
    show ?thesis
      by (rule client_other[OF r b g n]) (use c b g ConnNew in \<open>simp add: clientClose_def Let_def\<close>)
  next
    case ConnHeld
    then have n: "\<forall>p. cstate (conns s c) \<noteq> ConnProxying p" by simp
    show ?thesis
      by (rule client_other[OF r b g n]) (use c b g ConnHeld in \<open>simp add: clientClose_def Let_def\<close>)
  next
    case ConnDestroyed
    then have n: "\<forall>p. cstate (conns s c) \<noteq> ConnProxying p" by simp
    show ?thesis
      by (rule client_other[OF r b g n])
         (use c b g ConnDestroyed in \<open>simp add: clientClose_def Let_def\<close>)
  next
    case ConnClosed
    then have n: "\<forall>p. cstate (conns s c) \<noteq> ConnProxying p" by simp
    show ?thesis
      by (rule client_other[OF r b g n]) (use c b g ConnClosed in \<open>simp add: clientClose_def Let_def\<close>)
  qed
next
  case (SwapIO k io)
  with assms have r: "ready s = []" and c: "swapIO k io s = Some s'"
    by (simp_all add: step_def split: if_splits)
  then have b: "k < nswaps s"
    by (auto simp: swapIO_def split: if_splits)
  show ?thesis
  proof (cases "pc (swaps s k)")
    case AwaitRm
    show ?thesis
      by (rule rm[OF r b AwaitRm]) (use c b AwaitRm in \<open>simp add: swapIO_def\<close>)
  next
    case AwaitPort
    show ?thesis
    proof (cases io)
      case (Ok p)
      show ?thesis
        by (rule port_ok[where p = p, OF r b AwaitPort]) (use c b AwaitPort Ok in \<open>simp add: swapIO_def\<close>)
    next
      case Err
      show ?thesis
        by (rule swap_err[OF r b])
           (use c b r AwaitPort Err in \<open>simp_all add: swapIO_def settle_def\<close>)
    qed
  next
    case (AwaitCreate p)
    show ?thesis
    proof (cases io)
      case Err
      show ?thesis
        by (rule swap_err[OF r b])
           (use c b r AwaitCreate Err in \<open>simp_all add: swapIO_def settle_def\<close>)
    next
      case (Ok x)
      with c b AwaitCreate have s': "s' = afterCreate k p s" by (simp add: swapIO_def)
      show ?thesis
      proof (cases "serverBuildCache s (Suc (serverIdCounter s))")
        case None
        show ?thesis
          by (rule create_miss[OF r b AwaitCreate None]) (simp add: s' afterCreate_miss[OF None])
      next
        case (Some bld)
        show ?thesis
        proof (cases "oldServer (swaps s k)")
          case None
          show ?thesis
            by (rule create_hit_finishing[OF r b AwaitCreate Some None])
               (simp add: s' afterCreate_hit[OF Some] afterLoad_finishing None r)
        next
          case old: (Some old)
          show ?thesis
            by (rule create_hit_closing[OF r b AwaitCreate Some old])
               (simp add: s' afterCreate_hit[OF Some] afterLoad_closing old r)
        qed
      qed
    qed
  next
    case (AwaitLoad n)
    show ?thesis
    proof (cases io)
      case Err
      show ?thesis
        by (rule swap_err[OF r b])
           (use c b r AwaitLoad Err in \<open>simp_all add: swapIO_def settle_def\<close>)
    next
      case (Ok bld)
      with c b AwaitLoad
      have s': "s' = afterLoad k (s\<lparr>serverBuildCache := (serverBuildCache s)(n := Some bld),
                     trace := trace s @ [CacheSet n]\<rparr>)"
        by (simp add: swapIO_def getServerBuild_loaded_def)
      show ?thesis
      proof (cases "oldServer (swaps s k)")
        case None
        show ?thesis
          by (rule load_finishing[where b = bld, OF r b AwaitLoad None])
             (simp add: s' afterLoad_finishing None r)
      next
        case (Some old)
        show ?thesis
          by (rule load_closing[where b = bld, OF r b AwaitLoad Some])
             (simp add: s' afterLoad_closing Some r)
      qed
    qed
  next
    case AwaitClose
    show ?thesis
      by (rule closed[OF r b AwaitClose])
         (use c b r AwaitClose in \<open>simp add: swapIO_def finishSwap_def settle_def\<close>)
  next
    case SwapDone
    with b c show ?thesis by (simp add: swapIO_def)
  next
    case SwapFailed
    with b c show ?thesis by (simp add: swapIO_def)
  qed
next
  case (BuildIO r io)
  with assms have rd: "ready s = []" and c: "buildIO r io s = Some s'"
    by (simp_all add: step_def split: if_splits)
  then have b: "r < nreqs s"
    by (auto simp: buildIO_def split: if_splits)
  show ?thesis
  proof (cases "rstate (reqs s r)")
    case (ReqLoad v)
    show ?thesis
    proof (cases io)
      case (Ok bld)
      show ?thesis
        by (rule build_ok[where b = bld, OF rd b ReqLoad])
           (use c b ReqLoad Ok in \<open>simp add: buildIO_def getServerBuild_loaded_def Let_def\<close>)
    next
      case Err
      show ?thesis
        by (rule build_err[OF rd b ReqLoad])
           (use c b ReqLoad Err in \<open>simp add: buildIO_def hookThrow_def\<close>)
    qed
  qed (use b c in \<open>simp_all add: buildIO_def\<close>)
next
  case Tick
  with assms have t: "tick s = Some s'" by (simp add: step_def)
  show ?thesis
  proof (cases "ready s")
    case Nil
    with t show ?thesis by (simp add: tick_def)
  next
    case (Cons m ms)
    show ?thesis
    proof (cases m)
      case (ResumeReq r)
      with Cons have rd: "ready s = ResumeReq r # ms" by simp
      show ?thesis
        by (rule resume[OF rd]) (use t rd in \<open>simp add: tick_def Let_def\<close>)
    next
      case (BindReq r)
      with Cons have rd: "ready s = BindReq r # ms" by simp
      with t have s': "s' = hookBind r (s\<lparr>ready := ms\<rparr>)" by (simp add: tick_def Let_def)
      show ?thesis
      proof (cases "activeVite s")
        case None
        show ?thesis
          by (rule bind_none[OF rd None]) (simp add: s' hookBind_none None)
      next
        case (Some v)
        show ?thesis
        proof (cases "serverBuildCache s v")
          case None
          show ?thesis
            by (rule bind_miss[OF rd Some None]) (simp add: s' hookBind_miss Some None)
        next
          case hit: (Some bld)
          show ?thesis
            by (rule bind_hit[OF rd Some hit]) (simp add: s' hookBind_hit Some hit)
        qed
      qed
    next
      case (ThrowReq r)
      with Cons have rd: "ready s = ThrowReq r # ms" by simp
      show ?thesis
        by (rule throw[OF rd]) (use t rd in \<open>simp add: tick_def Let_def hookThrow_def\<close>)
    next
      case (ResumeConn c)
      with Cons have rd: "ready s = ResumeConn c # ms" by simp
      show ?thesis
        by (rule conn[OF rd]) (use t rd in \<open>simp add: tick_def Let_def\<close>)
    qed
  qed
qed

lemma initialServerPromise_idem:
  "initialServerPromise s = x \<Longrightarrow> s\<lparr>initialServerPromise := x\<rparr> = s"
  by auto

lemma awaitPromise_cases [case_names settled failed wait]:
  obtains
    (settled) "pc (swaps s k) = SwapDone"
      "awaitPromise r (Some k) s = s\<lparr>ready := ready s @ [BindReq r]\<rparr>"
  | (failed) "pc (swaps s k) = SwapFailed"
      "awaitPromise r (Some k) s = s\<lparr>ready := ready s @ [ThrowReq r]\<rparr>"
  | (wait) "pc (swaps s k) \<noteq> SwapDone" "pc (swaps s k) \<noteq> SwapFailed"
      "awaitPromise r (Some k) s =
         s\<lparr>swaps := (swaps s)(k := (swaps s k)\<lparr>waiters := waiters (swaps s k) @ [r]\<rparr>)\<rparr>"
proof (cases "pc (swaps s k)")
  case SwapDone
  show ?thesis by (rule settled[OF SwapDone]) (simp add: awaitPromise_def SwapDone)
next
  case SwapFailed
  show ?thesis by (rule failed[OF SwapFailed]) (simp add: awaitPromise_def SwapFailed)
next
  case AwaitRm
  show ?thesis by (rule wait) (simp_all add: awaitPromise_def AwaitRm)
next
  case AwaitPort
  show ?thesis by (rule wait) (simp_all add: awaitPromise_def AwaitPort)
next
  case (AwaitCreate x)
  show ?thesis by (rule wait) (simp_all add: awaitPromise_def AwaitCreate)
next
  case (AwaitLoad x)
  show ?thesis by (rule wait) (simp_all add: awaitPromise_def AwaitLoad)
next
  case AwaitClose
  show ?thesis by (rule wait) (simp_all add: awaitPromise_def AwaitClose)
qed

lemma hookEnsure_cases [case_names active waiting joined started]:
  obtains
    (active) "activeVite s \<noteq> None" "hookEnsure r s = s\<lparr>ready := ready s @ [BindReq r]\<rparr>"
  | (waiting) k where "activeVite s = None" "initialServerPromise s = Some k"
      "hookEnsure r s = awaitPromise r (Some k) s"
  | (joined) k where "activeVite s = None" "initialServerPromise s = None"
      "restartPromise s = Some k"
      "hookEnsure r s = awaitPromise r (Some k) (s\<lparr>initialServerPromise := Some k\<rparr>)"
  | (started) "activeVite s = None" "initialServerPromise s = None" "restartPromise s = None"
      "hookEnsure r s =
         s\<lparr>swaps := (swaps s)(nswaps s :=
              \<lparr>oldServer = activeVite s, oldServerId = serverIdCounter s, newServer = None,
               pc = (if isFirstStart s then AwaitRm else AwaitPort), waiters = [r]\<rparr>),
           nswaps := Suc (nswaps s),
           trace := trace s @ [if isFirstStart s then RmCache else GetPort],
           restartPromise := Some (nswaps s),
           initialServerPromise := Some (nswaps s)\<rparr>"
proof (cases "activeVite s")
  case (Some v)
  then have a: "activeVite s \<noteq> None" by simp
  show ?thesis
    by (rule active[OF a]) (simp add: hookEnsure_def ensureFirstServer_def awaitPromise_def a)
next
  case None
  show ?thesis
  proof (cases "initialServerPromise s")
    case (Some k)
    show ?thesis
      by (rule waiting[OF None Some]) (simp add: hookEnsure_def ensureFirstServer_def None Some)
  next
    case noinit: None
    show ?thesis
    proof (cases "restartPromise s")
      case (Some k)
      show ?thesis
        by (rule joined[OF None noinit Some])
           (simp add: hookEnsure_def ensureFirstServer_def None noinit restartVite_Some[OF Some])
    next
      case norestart: None
      show ?thesis
        by (rule started[OF None noinit norestart])
           (simp add: hookEnsure_def ensureFirstServer_def None noinit
              restartVite_None[OF norestart] startBody_def awaitPromise_def)
    qed
  qed
qed

lemma proxy_leaves [case_names destroy connect]:
  obtains
    (destroy) "activeHmrPort s = None \<or> activeHmrPort s = Some 0"
      "proxy c s = s\<lparr>conns := (conns s)(c := (conns s c)\<lparr>cstate := ConnDestroyed\<rparr>),
                     trace := trace s @ [DestroySocket c]\<rparr>"
  | (connect) p where "activeHmrPort s = Some p" "p \<noteq> 0"
      "proxy c s = s\<lparr>conns := (conns s)(c := (conns s c)\<lparr>cstate := ConnProxying p\<rparr>),
                     trace := trace s @ [Connect c p]\<rparr>"
proof (cases "activeHmrPort s")
  case None
  show ?thesis by (rule destroy) (simp_all add: proxy_def None)
next
  case (Some p)
  show ?thesis
  proof (cases "p = 0")
    case True
    show ?thesis by (rule destroy) (simp_all add: proxy_def Some True)
  next
    case False
    show ?thesis by (rule connect[OF Some False]) (simp add: proxy_def Some False)
  qed
qed

lemma inv_core_init: "inv_core init"
  by (simp add: inv_core_def init_def newRequest_def)

lemma inv_core_live:
  assumes "inv_core s" "k < nswaps s" "pc (swaps s k) \<noteq> SwapDone"
  shows "restartPromise s = Some k"
proof (cases "restartPromise s")
  case None
  with assms show ?thesis by (simp add: inv_core_def)
next
  case (Some k')
  with assms have "nswaps s = Suc k'" "\<forall>j<k'. pc (swaps s j) = SwapDone"
    by (simp_all add: inv_core_def)
  with assms(2,3) have "k = k'" by (metis less_Suc_eq)
  with Some show ?thesis by simp
qed

lemma inv_core_frame:
  assumes "inv_core s" "restartPromise s' = restartPromise s" "nswaps s' = nswaps s"
    "\<And>k. pc (swaps s' k) = pc (swaps s k)"
    "\<And>k. newServer (swaps s' k) = newServer (swaps s k)"
    "\<And>k. oldServer (swaps s' k) = oldServer (swaps s k)"
    "serverIdCounter s' = serverIdCounter s" "activeVite s' = activeVite s"
    "activeHmrPort s' = activeHmrPort s"
    "\<And>g b. serverBuildCache s' g = Some b \<Longrightarrow>
       (\<exists>b'. serverBuildCache s g = Some b') \<or> (1 \<le> g \<and> g \<le> serverIdCounter s)"
    "\<And>r v. rstate (reqs s' r) = ReqLoad v \<Longrightarrow>
       rstate (reqs s r) = ReqLoad v \<or> (1 \<le> v \<and> v \<le> serverIdCounter s)"
  shows "inv_core s'"
  using assms(1) unfolding inv_core_def pc_ok_def assms(2-9)
  by (auto dest: assms(10,11))

lemma inv_core_awaitPromise: "inv_core s \<Longrightarrow> inv_core (awaitPromise r (Some k) s)"
  by (cases rule: awaitPromise_cases[where s = s and k = k and r = r])
     (erule inv_core_frame; simp)+

lemma inv_core_hookEnsure:
  assumes "inv_core s"
  shows "inv_core (hookEnsure r s)"
proof (cases rule: hookEnsure_cases[where s = s and r = r])
  case active
  from assms show ?thesis unfolding active(2) by (rule inv_core_frame) simp_all
next
  case (waiting k)
  from assms show ?thesis unfolding waiting(3) by (rule inv_core_awaitPromise)
next
  case (joined k)
  from assms have "inv_core (s\<lparr>initialServerPromise := Some k\<rparr>)"
    by (rule inv_core_frame) simp_all
  then show ?thesis unfolding joined(4) by (rule inv_core_awaitPromise)
next
  case started
  from assms started(3) show ?thesis
    unfolding started(4) by (auto simp: inv_core_def pc_ok_def less_Suc_eq)
qed

lemma inv_core_proxy: "inv_core s \<Longrightarrow> inv_core (proxy c s)"
  by (cases rule: proxy_leaves[where s = s and c = c]) (erule inv_core_frame; simp)+

lemma inv_core_step:
  assumes "inv_core s" "step e s = Some s'"
  shows "inv_core s'"
  using assms(2)
proof (cases rule: step_leaves)
  case (held b k)
  from assms(1) show ?thesis unfolding held(3) by (rule inv_core_frame) (simp_all add: newRequest_def split: if_splits)
next
  case trigger
  from assms(1) trigger(2) show ?thesis
    unfolding trigger(4) by (auto simp: inv_core_def pc_ok_def less_Suc_eq newRequest_def)
next
  case arrive
  from assms(1)
  have "inv_core (s\<lparr>reqs := (reqs s)(nreqs s := newRequest), nreqs := Suc (nreqs s)\<rparr>)"
    by (rule inv_core_frame) (simp_all add: newRequest_def split: if_splits)
  then show ?thesis unfolding arrive(3) by (rule inv_core_hookEnsure)
next
  case (upgrade_held k)
  from assms(1) show ?thesis unfolding upgrade_held(3) by (rule inv_core_frame) simp_all
next
  case upgrade_now
  from assms(1)
  have "inv_core (s\<lparr>conns := (conns s)(nconns s := newConn), nconns := Suc (nconns s)\<rparr>)"
    by (rule inv_core_frame) simp_all
  then show ?thesis unfolding upgrade_now(3) by (rule inv_core_proxy)
next
  case (client_proxying c p)
  from assms(1) show ?thesis unfolding client_proxying(5) by (rule inv_core_frame) simp_all
next
  case (client_other c)
  from assms(1) show ?thesis unfolding client_other(5) by (rule inv_core_frame) simp_all
next
  case (rm k)
  then have rp: "restartPromise s = Some k" using inv_core_live[OF assms(1)] by simp
  from assms(1) rp rm(3) show ?thesis
    unfolding rm(4) by (auto simp: inv_core_def pc_ok_def less_Suc_eq)
next
  case (port_ok k p)
  then have rp: "restartPromise s = Some k" using inv_core_live[OF assms(1)] by simp
  from assms(1) rp port_ok(3) show ?thesis
    unfolding port_ok(4) by (auto simp: inv_core_def pc_ok_def less_Suc_eq)
next
  case (swap_err k)
  then have rp: "restartPromise s = Some k" using inv_core_live[OF assms(1)] by auto
  from assms(1) rp swap_err(3) show ?thesis
    unfolding swap_err(4) by (auto simp: inv_core_def pc_ok_def less_Suc_eq)
next
  case (create_miss k p)
  then have rp: "restartPromise s = Some k" using inv_core_live[OF assms(1)] by simp
  from assms(1) rp create_miss(3) show ?thesis
    unfolding create_miss(5) by (auto simp: inv_core_def pc_ok_def less_Suc_eq intro: le_SucI)
next
  case (create_hit_closing k p b old)
  with assms(1) show ?thesis by (auto simp: inv_core_def)
next
  case (create_hit_finishing k p b)
  with assms(1) show ?thesis by (auto simp: inv_core_def)
next
  case (load_closing k n b old)
  then have rp: "restartPromise s = Some k" using inv_core_live[OF assms(1)] by simp
  from assms(1) rp load_closing(3,4) show ?thesis
    unfolding load_closing(5) by (auto simp: inv_core_def pc_ok_def less_Suc_eq split: if_splits)
next
  case (load_finishing k n b)
  then have rp: "restartPromise s = Some k" using inv_core_live[OF assms(1)] by simp
  from assms(1) rp load_finishing(3,4) show ?thesis
    unfolding load_finishing(5) by (auto simp: inv_core_def pc_ok_def less_Suc_eq split: if_splits)
next
  case (closed k)
  then have rp: "restartPromise s = Some k" using inv_core_live[OF assms(1)] by simp
  from assms(1) rp closed(3) show ?thesis
    unfolding closed(4) by (auto simp: inv_core_def pc_ok_def less_Suc_eq split: if_splits)
next
  case (build_ok r v b)
  from assms(1) have "1 \<le> v \<and> v \<le> serverIdCounter s"
    using build_ok(3) by (auto simp: inv_core_def)
  with assms(1) show ?thesis
    unfolding build_ok(4) by (rule_tac inv_core_frame) (auto split: if_splits)
next
  case (build_err r v)
  from assms(1) show ?thesis unfolding build_err(4) by (rule inv_core_frame) (simp_all split: if_splits)
next
  case (resume r ms)
  from assms(1) have "inv_core (s\<lparr>ready := ms\<rparr>)" by (rule inv_core_frame) simp_all
  then show ?thesis unfolding resume(2) by (rule inv_core_hookEnsure)
next
  case (bind_none r ms)
  from assms(1) show ?thesis unfolding bind_none(3) by (rule inv_core_frame) (simp_all split: if_splits)
next
  case (bind_hit r ms v b)
  from assms(1) show ?thesis unfolding bind_hit(4) by (rule inv_core_frame) (simp_all split: if_splits)
next
  case (bind_miss r ms v)
  from assms(1) have "1 \<le> v \<and> v \<le> serverIdCounter s"
    using bind_miss(2) by (auto simp: inv_core_def split: if_splits)
  with assms(1) show ?thesis
    unfolding bind_miss(4) by (rule_tac inv_core_frame) (auto split: if_splits)
next
  case (throw r ms)
  from assms(1) show ?thesis unfolding throw(2) by (rule inv_core_frame) (simp_all split: if_splits)
next
  case (conn c ms)
  from assms(1) have "inv_core (s\<lparr>ready := ms\<rparr>)" by (rule inv_core_frame) simp_all
  then show ?thesis unfolding conn(2) by (rule inv_core_proxy)
qed

lemma task_ok_Suc: "task_ok nr nc m \<Longrightarrow> task_ok (Suc nr) nc m"
  "task_ok nr nc m \<Longrightarrow> task_ok nr (Suc nc) m"
  by (cases m; simp)+

lemma inv_queue_init: "inv_queue init"
  by (simp add: inv_queue_def init_def newSwap_def)

lemma inv_queue_awaitPromise:
  "inv_queue s \<Longrightarrow> r < nreqs s \<Longrightarrow> inv_queue (awaitPromise r (Some k) s)"
  by (cases rule: awaitPromise_cases[where s = s and k = k and r = r])
     (auto simp: inv_queue_def)

lemma inv_queue_hookEnsure:
  assumes "inv_queue s" "r < nreqs s"
  shows "inv_queue (hookEnsure r s)"
proof (cases rule: hookEnsure_cases[where s = s and r = r])
  case active
  from assms show ?thesis unfolding active(2) by (auto simp: inv_queue_def)
next
  case (waiting k)
  from assms show ?thesis unfolding waiting(3) by (rule inv_queue_awaitPromise)
next
  case (joined k)
  from assms(1) have "inv_queue (s\<lparr>initialServerPromise := Some k\<rparr>)"
    by (simp add: inv_queue_def)
  then show ?thesis unfolding joined(4) by (rule inv_queue_awaitPromise) (simp add: assms(2))
next
  case started
  from assms show ?thesis unfolding started(4) by (auto simp: inv_queue_def)
qed

lemma inv_queue_proxy: "inv_queue s \<Longrightarrow> inv_queue (proxy c s)"
  by (cases rule: proxy_leaves[where s = s and c = c]) (auto simp: inv_queue_def)

lemma inv_queue_step:
  assumes "inv_queue s" "step e s = Some s'"
  shows "inv_queue s'"
  using assms(2)
proof (cases rule: step_leaves)
  case (held b k)
  from assms(1) show ?thesis unfolding held(3)
    by (auto simp: inv_queue_def held(1) intro: less_SucI task_ok_Suc)
next
  case trigger
  from assms(1) show ?thesis unfolding trigger(4)
    by (auto simp: inv_queue_def trigger(1) intro: less_SucI task_ok_Suc)
next
  case arrive
  from assms(1)
  have "inv_queue (s\<lparr>reqs := (reqs s)(nreqs s := newRequest), nreqs := Suc (nreqs s)\<rparr>)"
    by (auto simp: inv_queue_def arrive(1) intro: less_SucI task_ok_Suc)
  then show ?thesis unfolding arrive(3) by (rule inv_queue_hookEnsure) simp
next
  case (upgrade_held k)
  from assms(1) show ?thesis unfolding upgrade_held(3)
    by (auto simp: inv_queue_def upgrade_held(1) intro: less_SucI task_ok_Suc)
next
  case upgrade_now
  from assms(1)
  have "inv_queue (s\<lparr>conns := (conns s)(nconns s := newConn), nconns := Suc (nconns s)\<rparr>)"
    by (auto simp: inv_queue_def upgrade_now(1) intro: less_SucI task_ok_Suc)
  then show ?thesis unfolding upgrade_now(3) by (rule inv_queue_proxy)
next
  case (client_proxying c p)
  from assms(1) show ?thesis unfolding client_proxying(5) by (simp add: inv_queue_def)
next
  case (client_other c)
  from assms(1) show ?thesis unfolding client_other(5) by (simp add: inv_queue_def)
next
  case (rm k)
  from assms(1) show ?thesis unfolding rm(4) by (simp add: inv_queue_def)
next
  case (port_ok k p)
  from assms(1) show ?thesis unfolding port_ok(4) by (simp add: inv_queue_def)
next
  case (swap_err k)
  from assms(1) show ?thesis unfolding swap_err(4) by (auto simp: inv_queue_def)
next
  case (create_miss k p)
  from assms(1) show ?thesis unfolding create_miss(5) by (simp add: inv_queue_def)
next
  case (create_hit_closing k p b old)
  from assms(1) show ?thesis unfolding create_hit_closing(6) by (auto simp: inv_queue_def)
next
  case (create_hit_finishing k p b)
  from assms(1) show ?thesis unfolding create_hit_finishing(6) by (auto simp: inv_queue_def)
next
  case (load_closing k n b old)
  from assms(1) show ?thesis unfolding load_closing(5) by (auto simp: inv_queue_def)
next
  case (load_finishing k n b)
  from assms(1) show ?thesis unfolding load_finishing(5) by (auto simp: inv_queue_def)
next
  case (closed k)
  from assms(1) show ?thesis unfolding closed(4) by (auto simp: inv_queue_def)
next
  case (build_ok r v b)
  from assms(1) show ?thesis unfolding build_ok(4) by (simp add: inv_queue_def)
next
  case (build_err r v)
  from assms(1) show ?thesis unfolding build_err(4) by (simp add: inv_queue_def)
next
  case (resume r ms)
  from assms(1) have "inv_queue (s\<lparr>ready := ms\<rparr>)" "r < nreqs s"
    by (auto simp: inv_queue_def resume(1))
  then show ?thesis unfolding resume(2) by (auto intro: inv_queue_hookEnsure)
next
  case (bind_none r ms)
  from assms(1) show ?thesis unfolding bind_none(3) by (simp add: inv_queue_def bind_none(1))
next
  case (bind_hit r ms v b)
  from assms(1) show ?thesis unfolding bind_hit(4) by (simp add: inv_queue_def bind_hit(1))
next
  case (bind_miss r ms v)
  from assms(1) show ?thesis unfolding bind_miss(4) by (simp add: inv_queue_def bind_miss(1))
next
  case (throw r ms)
  from assms(1) show ?thesis unfolding throw(2) by (simp add: inv_queue_def throw(1))
next
  case (conn c ms)
  from assms(1) have "inv_queue (s\<lparr>ready := ms\<rparr>)" by (simp add: inv_queue_def conn(1))
  then show ?thesis unfolding conn(2) by (rule inv_queue_proxy)
qed

lemma inv_held_init: "inv_held init"
  by (simp add: inv_held_def init_def newRequest_def)

lemma inv_heldD: "inv_held s \<Longrightarrow> held (reqs s r) = Some (a, p) \<Longrightarrow> held_ok s r a p"
  unfolding inv_held_def by (drule spec[where x = r]) simp

lemma inv_heldI:
  "(\<And>r a p. held (reqs s r) = Some (a, p) \<Longrightarrow> held_ok s r a p) \<Longrightarrow> inv_held s"
  unfolding inv_held_def by (auto split: option.splits)

lemma held_ok_mono:
  assumes "held_ok s r a p"
    "serverIdCounter s' = serverIdCounter s"
    "viteServer (reqs s' r) = viteServer (reqs s r)"
    "unreleased s r \<Longrightarrow> unreleased s' r"
  shows "held_ok s' r a p"
  using assms unfolding held_ok_def by (auto split: option.splits)

lemma held_ok_advance:
  assumes "held_ok s r a p"
    "serverIdCounter s' = Suc (serverIdCounter s)"
    "viteServer (reqs s' r) = viteServer (reqs s r)"
  shows "held_ok s' r a p"
  using assms unfolding held_ok_def by (auto split: option.splits)

lemma held_ok_released:
  assumes "held_ok s r a p" "\<not> unreleased s r"
    "serverIdCounter s' = serverIdCounter s"
    "viteServer (reqs s' r) = viteServer (reqs s r)"
  shows "held_ok s' r a p"
  using assms unfolding held_ok_def by (auto split: option.splits)

lemma held_ok_settled:
  assumes "held_ok s r a p" "held (reqs s r) = Some (a, p)" "settled_hold s r"
    "serverIdCounter s' = serverIdCounter s"
    "viteServer (reqs s' r) = viteServer (reqs s r)"
  shows "held_ok s' r a p"
  using assms unfolding held_ok_def settled_hold_def by (auto split: option.splits)

lemma held_ok_bind:
  assumes "held_ok s r a p" "held (reqs s r) = Some (a, p)" "settled_hold s r"
    "serverIdCounter s' = serverIdCounter s"
    "viteServer (reqs s' r) = None \<or> viteServer (reqs s' r) = Some (serverIdCounter s)"
  shows "held_ok s' r a p"
  using assms unfolding held_ok_def settled_hold_def by (auto split: option.splits)

lemma settled_holdI:
  assumes "inv_held s" "\<not> unreleased s r"
  shows "settled_hold s r"
proof (cases "held (reqs s r)")
  case None
  then show ?thesis by (simp add: settled_hold_def)
next
  case (Some ap)
  obtain a p where ap: "ap = (a, p)" by (cases ap)
  from inv_heldD[OF assms(1) Some[unfolded ap]] assms(2) show ?thesis
    unfolding settled_hold_def held_ok_def Some ap by (auto split: option.splits if_splits)
qed

lemma inv_held_transfer:
  assumes "inv_held s" "serverIdCounter s' = serverIdCounter s"
    "\<And>r a p. held (reqs s' r) = Some (a, p) \<Longrightarrow>
       held_ok s' r a p \<or>
       (held (reqs s r) = Some (a, p) \<and> viteServer (reqs s' r) = viteServer (reqs s r) \<and>
        (unreleased s r \<longrightarrow> unreleased s' r))"
  shows "inv_held s'"
proof (rule inv_heldI)
  fix r a p
  assume h: "held (reqs s' r) = Some (a, p)"
  from assms(3)[OF h] show "held_ok s' r a p"
  proof
    assume "held_ok s' r a p" then show ?thesis .
  next
    assume c: "held (reqs s r) = Some (a, p) \<and> viteServer (reqs s' r) = viteServer (reqs s r) \<and>
        (unreleased s r \<longrightarrow> unreleased s' r)"
    then have "held_ok s r a p" using inv_heldD[OF assms(1)] by blast
    then show ?thesis using c assms(2) by (auto intro: held_ok_mono)
  qed
qed

lemma inv_held_advance:
  assumes "inv_held s" "serverIdCounter s' = Suc (serverIdCounter s)"
    "\<And>r. held (reqs s' r) = held (reqs s r)"
    "\<And>r. viteServer (reqs s' r) = viteServer (reqs s r)"
  shows "inv_held s'"
proof (rule inv_heldI)
  fix r a p
  assume h: "held (reqs s' r) = Some (a, p)"
  then have "held_ok s r a p" using inv_heldD[OF assms(1)] assms(3) by simp
  then show "held_ok s' r a p" by (rule held_ok_advance) (simp_all add: assms)
qed

lemma inv_held_awaitPromise:
  assumes "inv_held s" "settled_hold s r"
  shows "inv_held (awaitPromise r (Some k) s)"
proof (rule inv_held_transfer[OF assms(1)])
  show "serverIdCounter (awaitPromise r (Some k) s) = serverIdCounter s"
    by (simp add: awaitPromise_def split: swap_pc.splits)
next
  fix r' a p
  assume h: "held (reqs (awaitPromise r (Some k) s) r') = Some (a, p)"
  have rq: "reqs (awaitPromise r (Some k) s) = reqs s"
    by (simp add: awaitPromise_def split: swap_pc.splits)
  have sc: "serverIdCounter (awaitPromise r (Some k) s) = serverIdCounter s"
    by (simp add: awaitPromise_def split: swap_pc.splits)
  show "held_ok (awaitPromise r (Some k) s) r' a p \<or>
       (held (reqs s r') = Some (a, p) \<and>
        viteServer (reqs (awaitPromise r (Some k) s) r') = viteServer (reqs s r') \<and>
        (unreleased s r' \<longrightarrow> unreleased (awaitPromise r (Some k) s) r'))"
  proof (cases "r' = r")
    case True
    from h have h': "held (reqs s r) = Some (a, p)" by (simp add: rq True)
    have "held_ok (awaitPromise r (Some k) s) r a p"
      by (rule held_ok_settled[OF inv_heldD[OF assms(1) h'] h' assms(2) sc]) (simp add: rq)
    then show ?thesis by (simp add: True)
  next
    case False
    have "unreleased s r' \<Longrightarrow> unreleased (awaitPromise r (Some k) s) r'"
      using False
      by (cases rule: awaitPromise_cases[where s = s and k = k and r = r])
         (auto simp: unreleased_def split: option.splits)
    with h show ?thesis by (simp add: rq)
  qed
qed

lemma settled_hold_frame:
  "settled_hold s r \<Longrightarrow> held (reqs s' r) = held (reqs s r) \<Longrightarrow>
   serverIdCounter s' = serverIdCounter s \<Longrightarrow> settled_hold s' r"
  by (auto simp: settled_hold_def split: option.splits)

lemma inv_held_hookEnsure:
  assumes "inv_held s" "settled_hold s r"
  shows "inv_held (hookEnsure r s)"
proof (cases rule: hookEnsure_cases[where s = s and r = r])
  case active
  show ?thesis
    unfolding active(2)
  proof (rule inv_held_transfer[OF assms(1)])
    fix r' a p
    assume h: "held (reqs (s\<lparr>ready := ready s @ [BindReq r]\<rparr>) r') = Some (a, p)"
    show "held_ok (s\<lparr>ready := ready s @ [BindReq r]\<rparr>) r' a p \<or>
       (held (reqs s r') = Some (a, p) \<and>
        viteServer (reqs (s\<lparr>ready := ready s @ [BindReq r]\<rparr>) r') = viteServer (reqs s r') \<and>
        (unreleased s r' \<longrightarrow> unreleased (s\<lparr>ready := ready s @ [BindReq r]\<rparr>) r'))"
    proof (cases "r' = r")
      case True
      from h have h': "held (reqs s r) = Some (a, p)" by (simp add: True)
      have "held_ok (s\<lparr>ready := ready s @ [BindReq r]\<rparr>) r a p"
        by (rule held_ok_settled[OF inv_heldD[OF assms(1) h'] h' assms(2)]) simp_all
      then show ?thesis by (simp add: True)
    next
      case False
      with h show ?thesis by (auto simp: unreleased_def split: option.splits)
    qed
  qed simp
next
  case (waiting k)
  from assms show ?thesis unfolding waiting(3) by (rule inv_held_awaitPromise)
next
  case (joined k)
  have "inv_held (s\<lparr>initialServerPromise := Some k\<rparr>)"
    by (rule inv_held_transfer[OF assms(1)]) (auto simp: unreleased_def split: option.splits)
  moreover have "settled_hold (s\<lparr>initialServerPromise := Some k\<rparr>) r"
    by (rule settled_hold_frame[OF assms(2)]) simp_all
  ultimately show ?thesis unfolding joined(4) by (rule inv_held_awaitPromise)
next
  case started
  let ?s' = "s\<lparr>swaps := (swaps s)(nswaps s :=
              \<lparr>oldServer = activeVite s, oldServerId = serverIdCounter s, newServer = None,
               pc = (if isFirstStart s then AwaitRm else AwaitPort), waiters = [r]\<rparr>),
           nswaps := Suc (nswaps s),
           trace := trace s @ [if isFirstStart s then RmCache else GetPort],
           restartPromise := Some (nswaps s),
           initialServerPromise := Some (nswaps s)\<rparr>"
  show ?thesis
    unfolding started(4)
  proof (rule inv_held_transfer[OF assms(1)])
    fix r' a p
    assume h: "held (reqs ?s' r') = Some (a, p)"
    show "held_ok ?s' r' a p \<or>
       (held (reqs s r') = Some (a, p) \<and> viteServer (reqs ?s' r') = viteServer (reqs s r') \<and>
        (unreleased s r' \<longrightarrow> unreleased ?s' r'))"
    proof (cases "r' = r")
      case True
      from h have h': "held (reqs s r) = Some (a, p)" by (simp add: True)
      have "held_ok ?s' r a p"
        by (rule held_ok_settled[OF inv_heldD[OF assms(1) h'] h' assms(2)]) simp_all
      then show ?thesis by (simp add: True)
    next
      case False
      with h show ?thesis by (auto simp: unreleased_def loading_def split: option.splits)
    qed
  qed simp
qed

lemma inv_held_proxy: "inv_held s \<Longrightarrow> inv_held (proxy c s)"
  by (cases rule: proxy_leaves[where s = s and c = c])
     (erule inv_held_transfer; auto simp: unreleased_def split: option.splits)+

lemma inv_core_active: "inv_core s \<Longrightarrow> activeVite s = Some v \<Longrightarrow> v = serverIdCounter s"
  by (auto simp: inv_core_def split: if_splits)

lemma inv_core_loading:
  assumes "inv_core s" "restartPromise s = Some k" "pc (swaps s k) = AwaitLoad n"
  shows "activeVite s = Some n"
  using assms by (auto simp: inv_core_def pc_ok_def)

lemma inv_core_fresh: "inv_core s \<Longrightarrow> serverBuildCache s (Suc (serverIdCounter s)) = None"
  by (cases "serverBuildCache s (Suc (serverIdCounter s))") (auto simp: inv_core_def)

lemma inv_held_step:
  assumes "inv_held s" "inv_core s" "inv_queue s" "step e s = Some s'"
  shows "inv_held s'"
  using assms(4)
proof (cases rule: step_leaves)
  case (held b k)
  have new: "held_ok s' (nreqs s) (activeVite s) (pc (swaps s k))"
  proof (cases "pc (swaps s k)")
    case (AwaitLoad n)
    with inv_core_loading[OF assms(2) held(2)] show ?thesis
      by (simp add: held_ok_def loading_def)
  qed (use assms(2,3) held(1,2) in
      \<open>auto simp: held_ok_def loading_def unreleased_def held(3) newRequest_def inv_queue_def
         dest: inv_core_active split: option.splits\<close>)
  show ?thesis
  proof (rule inv_held_transfer[OF assms(1)])
    fix r a p
    assume h: "held (reqs s' r) = Some (a, p)"
    show "held_ok s' r a p \<or>
       (held (reqs s r) = Some (a, p) \<and> viteServer (reqs s' r) = viteServer (reqs s r) \<and>
        (unreleased s r \<longrightarrow> unreleased s' r))"
    proof (cases "r = nreqs s")
      case True
      with h new show ?thesis by (simp add: held(3) newRequest_def)
    next
      case False
      with h show ?thesis
        by (auto simp: held(3) unreleased_def split: option.splits)
    qed
  qed (simp add: held(3))
next
  case trigger
  have new: "held_ok s' (nreqs s) (activeVite s) (if isFirstStart s then AwaitRm else AwaitPort)"
    using assms(2,3) trigger(1,2)
    by (auto simp: held_ok_def loading_def unreleased_def trigger(4) newRequest_def inv_queue_def
         dest: inv_core_active split: option.splits)
  show ?thesis
  proof (rule inv_held_transfer[OF assms(1)])
    fix r a p
    assume h: "held (reqs s' r) = Some (a, p)"
    show "held_ok s' r a p \<or>
       (held (reqs s r) = Some (a, p) \<and> viteServer (reqs s' r) = viteServer (reqs s r) \<and>
        (unreleased s r \<longrightarrow> unreleased s' r))"
    proof (cases "r = nreqs s")
      case True
      with h new show ?thesis by (simp add: trigger(4) newRequest_def)
    next
      case False
      with h show ?thesis
        by (auto simp: trigger(4) unreleased_def loading_def split: option.splits)
    qed
  qed (simp add: trigger(4))
next
  case arrive
  let ?s0 = "s\<lparr>reqs := (reqs s)(nreqs s := newRequest), nreqs := Suc (nreqs s)\<rparr>"
  have "inv_held ?s0"
    by (rule inv_held_transfer[OF assms(1)])
       (auto simp: unreleased_def newRequest_def split: option.splits if_splits)
  moreover have "settled_hold ?s0 (nreqs s)"
    by (simp add: settled_hold_def newRequest_def)
  ultimately show ?thesis unfolding arrive(3) by (rule inv_held_hookEnsure)
next
  case (upgrade_held k)
  show ?thesis unfolding upgrade_held(3)
    by (rule inv_held_transfer[OF assms(1)]) (auto simp: unreleased_def split: option.splits)
next
  case upgrade_now
  have "inv_held (s\<lparr>conns := (conns s)(nconns s := newConn), nconns := Suc (nconns s)\<rparr>)"
    by (rule inv_held_transfer[OF assms(1)]) (auto simp: unreleased_def split: option.splits)
  then show ?thesis unfolding upgrade_now(3) by (rule inv_held_proxy)
next
  case (client_proxying c p)
  show ?thesis unfolding client_proxying(5)
    by (rule inv_held_transfer[OF assms(1)]) (auto simp: unreleased_def split: option.splits)
next
  case (client_other c)
  show ?thesis unfolding client_other(5)
    by (rule inv_held_transfer[OF assms(1)]) (auto simp: unreleased_def split: option.splits)
next
  case (rm k)
  show ?thesis unfolding rm(4)
    by (rule inv_held_transfer[OF assms(1)])
       (use rm(3) in \<open>auto simp: unreleased_def loading_def split: option.splits\<close>)
next
  case (port_ok k p)
  show ?thesis unfolding port_ok(4)
    by (rule inv_held_transfer[OF assms(1)])
       (use port_ok(3) in \<open>auto simp: unreleased_def loading_def split: option.splits\<close>)
next
  case (swap_err k)
  show ?thesis unfolding swap_err(4)
    by (rule inv_held_transfer[OF assms(1)])
       (use swap_err(1) in \<open>auto simp: unreleased_def loading_def split: option.splits\<close>)
next
  case (create_miss k p)
  show ?thesis unfolding create_miss(5)
    by (rule inv_held_advance[OF assms(1)]) simp_all
next
  case (create_hit_closing k p b old)
  with inv_core_fresh[OF assms(2)] show ?thesis by simp
next
  case (create_hit_finishing k p b)
  with inv_core_fresh[OF assms(2)] show ?thesis by simp
next
  case (load_closing k n b old)
  then have rp: "restartPromise s = Some k" using inv_core_live[OF assms(2)] by simp
  show ?thesis unfolding load_closing(5)
    by (rule inv_held_transfer[OF assms(1)])
       (use rp load_closing(3) in \<open>auto simp: unreleased_def loading_def split: option.splits\<close>)
next
  case (load_finishing k n b)
  then have rp: "restartPromise s = Some k" using inv_core_live[OF assms(2)] by simp
  show ?thesis unfolding load_finishing(5)
    by (rule inv_held_transfer[OF assms(1)])
       (use rp load_finishing(3) in \<open>auto simp: unreleased_def loading_def split: option.splits\<close>)
next
  case (closed k)
  show ?thesis unfolding closed(4)
    by (rule inv_held_transfer[OF assms(1)]) (auto simp: unreleased_def split: option.splits)
next
  case (build_ok r v b)
  show ?thesis unfolding build_ok(4)
    by (rule inv_held_transfer[OF assms(1)])
       (auto simp: unreleased_def split: option.splits if_splits)
next
  case (build_err r v)
  show ?thesis unfolding build_err(4)
    by (rule inv_held_transfer[OF assms(1)])
       (auto simp: unreleased_def split: option.splits if_splits)
next
  case (resume r ms)
  have "inv_held (s\<lparr>ready := ms\<rparr>)"
    by (rule inv_held_transfer[OF assms(1)])
       (auto simp: unreleased_def resume(1) split: option.splits)
  moreover have "settled_hold s r"
    by (rule settled_holdI[OF assms(1)]) (simp add: unreleased_def resume(1))
  then have "settled_hold (s\<lparr>ready := ms\<rparr>) r"
    by (rule settled_hold_frame) simp_all
  ultimately show ?thesis unfolding resume(2) by (rule inv_held_hookEnsure)
next
  case (bind_none r ms)
  have st: "settled_hold s r"
    by (rule settled_holdI[OF assms(1)]) (simp add: unreleased_def bind_none(1))
  show ?thesis
  proof (rule inv_held_transfer[OF assms(1)])
    fix r' a p
    assume h: "held (reqs s' r') = Some (a, p)"
    show "held_ok s' r' a p \<or>
       (held (reqs s r') = Some (a, p) \<and> viteServer (reqs s' r') = viteServer (reqs s r') \<and>
        (unreleased s r' \<longrightarrow> unreleased s' r'))"
    proof (cases "r' = r")
      case True
      from h have h': "held (reqs s r) = Some (a, p)" by (simp add: bind_none(3) True)
      have "held_ok s' r a p"
        by (rule held_ok_bind[OF inv_heldD[OF assms(1) h'] h' st]) (simp_all add: bind_none(3))
      then show ?thesis by (simp add: True)
    next
      case False
      with h show ?thesis
        by (auto simp: bind_none(1,3) unreleased_def split: option.splits)
    qed
  qed (simp add: bind_none(3))
next
  case (bind_hit r ms v b)
  have st: "settled_hold s r"
    by (rule settled_holdI[OF assms(1)]) (simp add: unreleased_def bind_hit(1))
  have v: "v = serverIdCounter s" by (rule inv_core_active[OF assms(2) bind_hit(2)])
  show ?thesis
  proof (rule inv_held_transfer[OF assms(1)])
    fix r' a p
    assume h: "held (reqs s' r') = Some (a, p)"
    show "held_ok s' r' a p \<or>
       (held (reqs s r') = Some (a, p) \<and> viteServer (reqs s' r') = viteServer (reqs s r') \<and>
        (unreleased s r' \<longrightarrow> unreleased s' r'))"
    proof (cases "r' = r")
      case True
      from h have h': "held (reqs s r) = Some (a, p)" by (simp add: bind_hit(4) True)
      have "held_ok s' r a p"
        by (rule held_ok_bind[OF inv_heldD[OF assms(1) h'] h' st]) (simp_all add: bind_hit(4) v)
      then show ?thesis by (simp add: True)
    next
      case False
      with h show ?thesis
        by (auto simp: bind_hit(1,4) unreleased_def split: option.splits)
    qed
  qed (simp add: bind_hit(4))
next
  case (bind_miss r ms v)
  have st: "settled_hold s r"
    by (rule settled_holdI[OF assms(1)]) (simp add: unreleased_def bind_miss(1))
  have v: "v = serverIdCounter s" by (rule inv_core_active[OF assms(2) bind_miss(2)])
  show ?thesis
  proof (rule inv_held_transfer[OF assms(1)])
    fix r' a p
    assume h: "held (reqs s' r') = Some (a, p)"
    show "held_ok s' r' a p \<or>
       (held (reqs s r') = Some (a, p) \<and> viteServer (reqs s' r') = viteServer (reqs s r') \<and>
        (unreleased s r' \<longrightarrow> unreleased s' r'))"
    proof (cases "r' = r")
      case True
      from h have h': "held (reqs s r) = Some (a, p)" by (simp add: bind_miss(4) True)
      have "held_ok s' r a p"
        by (rule held_ok_bind[OF inv_heldD[OF assms(1) h'] h' st]) (simp_all add: bind_miss(4) v)
      then show ?thesis by (simp add: True)
    next
      case False
      with h show ?thesis
        by (auto simp: bind_miss(1,4) unreleased_def split: option.splits)
    qed
  qed (simp add: bind_miss(4))
next
  case (throw r ms)
  show ?thesis unfolding throw(2)
    by (rule inv_held_transfer[OF assms(1)])
       (auto simp: unreleased_def throw(1) split: option.splits if_splits)
next
  case (conn c ms)
  have "inv_held (s\<lparr>ready := ms\<rparr>)"
    by (rule inv_held_transfer[OF assms(1)])
       (auto simp: unreleased_def conn(1) split: option.splits)
  then show ?thesis unfolding conn(2) by (rule inv_held_proxy)
qed

lemma count_resolve [simp]:
  "count_list (map ResolveHttp xs) (CacheDelete g) = 0"
  "count_list (map ResolveHttp xs) (CloseServer g) = 0"
  "count_list (map ResolveWs xs) (CacheDelete g) = 0"
  "count_list (map ResolveWs xs) (CloseServer g) = 0"
  by (induction xs) simp_all

lemma inv_trace_init: "inv_trace init"
  by (simp add: inv_trace_def init_def closing_started_def)

lemma inv_trace_frame:
  assumes "inv_trace s"
    "\<And>g. closing_started s' g = closing_started s g"
    "\<And>g. count_list (trace s') (CacheDelete g) = count_list (trace s) (CacheDelete g)"
    "\<And>g. count_list (trace s') (CloseServer g) = count_list (trace s) (CloseServer g)"
    "\<And>c p. Connect c p \<in> set (trace s') \<Longrightarrow> Connect c p \<in> set (trace s) \<or> c < nconns s'"
    "nconns s \<le> nconns s'"
  shows "inv_trace s'"
  using assms(1,6) unfolding inv_trace_def assms(2-4)
  by (auto dest!: assms(5))

lemma inv_trace_awaitPromise: "inv_trace s \<Longrightarrow> inv_trace (awaitPromise r (Some k) s)"
  by (cases rule: awaitPromise_cases[where s = s and k = k and r = r])
     (erule inv_trace_frame; simp add: closing_started_def)+

lemma inv_trace_hookEnsure:
  assumes "inv_trace s"
  shows "inv_trace (hookEnsure r s)"
proof (cases rule: hookEnsure_cases[where s = s and r = r])
  case active
  from assms show ?thesis unfolding active(2)
    by (rule inv_trace_frame) (simp_all add: closing_started_def)
next
  case (waiting k)
  from assms show ?thesis unfolding waiting(3) by (rule inv_trace_awaitPromise)
next
  case (joined k)
  from assms have "inv_trace (s\<lparr>initialServerPromise := Some k\<rparr>)"
    by (rule inv_trace_frame) (simp_all add: closing_started_def)
  then show ?thesis unfolding joined(4) by (rule inv_trace_awaitPromise)
next
  case started
  from assms show ?thesis unfolding started(4)
    by (rule inv_trace_frame) (auto simp: closing_started_def)
qed

lemma inv_trace_proxy: "inv_trace s \<Longrightarrow> c < nconns s \<Longrightarrow> inv_trace (proxy c s)"
  by (cases rule: proxy_leaves[where s = s and c = c])
     (erule inv_trace_frame; auto simp add: closing_started_def)+

lemma inv_core_old:
  "inv_core s \<Longrightarrow> k < nswaps s \<Longrightarrow> oldServer (swaps s k) = (if k = 0 then None else Some k)"
  by (simp add: inv_core_def)

lemma inv_trace_step:
  assumes "inv_trace s" "inv_core s" "inv_queue s" "step e s = Some s'"
  shows "inv_trace s'"
  using assms(4)
proof (cases rule: step_leaves)
  case (held b k)
  from assms(1) show ?thesis unfolding held(3)
    by (rule inv_trace_frame) (simp_all add: closing_started_def)
next
  case trigger
  from assms(1) show ?thesis unfolding trigger(4)
    by (rule inv_trace_frame) (auto simp: closing_started_def)
next
  case arrive
  from assms(1)
  have "inv_trace (s\<lparr>reqs := (reqs s)(nreqs s := newRequest), nreqs := Suc (nreqs s)\<rparr>)"
    by (rule inv_trace_frame) (simp_all add: closing_started_def)
  then show ?thesis unfolding arrive(3) by (rule inv_trace_hookEnsure)
next
  case (upgrade_held k)
  from assms(1) show ?thesis unfolding upgrade_held(3)
    by (rule inv_trace_frame) (simp_all add: closing_started_def)
next
  case upgrade_now
  from assms(1)
  have "inv_trace (s\<lparr>conns := (conns s)(nconns s := newConn), nconns := Suc (nconns s)\<rparr>)"
    by (rule inv_trace_frame) (simp_all add: closing_started_def)
  then show ?thesis unfolding upgrade_now(3) by (rule inv_trace_proxy) simp
next
  case (client_proxying c p)
  from assms(1) show ?thesis unfolding client_proxying(5)
    by (rule inv_trace_frame) (simp_all add: closing_started_def)
next
  case (client_other c)
  from assms(1) show ?thesis unfolding client_other(5)
    by (rule inv_trace_frame) (simp_all add: closing_started_def)
next
  case (rm k)
  from assms(1) show ?thesis unfolding rm(4)
    by (rule inv_trace_frame) (use rm(3) in \<open>auto simp: closing_started_def\<close>)
next
  case (port_ok k p)
  from assms(1) show ?thesis unfolding port_ok(4)
    by (rule inv_trace_frame) (use port_ok(3) in \<open>auto simp: closing_started_def\<close>)
next
  case (swap_err k)
  from assms(1) show ?thesis unfolding swap_err(4)
    by (rule inv_trace_frame) (use swap_err(3) in \<open>auto simp: closing_started_def\<close>)
next
  case (create_miss k p)
  from assms(1) show ?thesis unfolding create_miss(5)
    by (rule inv_trace_frame) (use create_miss(3) in \<open>auto simp: closing_started_def\<close>)
next
  case (create_hit_closing k p b old)
  with inv_core_fresh[OF assms(2)] show ?thesis by simp
next
  case (create_hit_finishing k p b)
  with inv_core_fresh[OF assms(2)] show ?thesis by simp
next
  case (load_closing k n b old)
  from inv_core_old[OF assms(2) load_closing(2)] load_closing(4)
  have old: "old = k" "k \<noteq> 0" by (auto split: if_splits)
  from assms(1) load_closing(2,3) old(2) show ?thesis unfolding load_closing(5) old(1)
    by (auto simp: inv_trace_def closing_started_def)
next
  case (load_finishing k n b)
  from inv_core_old[OF assms(2) load_finishing(2)] load_finishing(4)
  have k: "k = 0" by (auto split: if_splits)
  from assms(1) show ?thesis unfolding load_finishing(5)
    by (rule inv_trace_frame) (use load_finishing(3) k in \<open>auto simp: closing_started_def\<close>)
next
  case (closed k)
  from assms(1) show ?thesis unfolding closed(4)
    by (rule inv_trace_frame) (use closed(3) in \<open>auto simp: closing_started_def\<close>)
next
  case (build_ok r v b)
  from assms(1) show ?thesis unfolding build_ok(4)
    by (rule inv_trace_frame) (simp_all add: closing_started_def)
next
  case (build_err r v)
  from assms(1) show ?thesis unfolding build_err(4)
    by (rule inv_trace_frame) (simp_all add: closing_started_def)
next
  case (resume r ms)
  from assms(1) have "inv_trace (s\<lparr>ready := ms\<rparr>)"
    by (rule inv_trace_frame) (simp_all add: closing_started_def)
  then show ?thesis unfolding resume(2) by (rule inv_trace_hookEnsure)
next
  case (bind_none r ms)
  from assms(1) show ?thesis unfolding bind_none(3)
    by (rule inv_trace_frame) (simp_all add: closing_started_def)
next
  case (bind_hit r ms v b)
  from assms(1) show ?thesis unfolding bind_hit(4)
    by (rule inv_trace_frame) (simp_all add: closing_started_def)
next
  case (bind_miss r ms v)
  from assms(1) show ?thesis unfolding bind_miss(4)
    by (rule inv_trace_frame) (simp_all add: closing_started_def)
next
  case (throw r ms)
  from assms(1) show ?thesis unfolding throw(2)
    by (rule inv_trace_frame) (simp_all add: closing_started_def)
next
  case (conn c ms)
  from assms(3) have c: "c < nconns s" by (simp add: inv_queue_def conn(1))
  from assms(1) have "inv_trace (s\<lparr>ready := ms\<rparr>)"
    by (rule inv_trace_frame) (simp_all add: closing_started_def)
  then show ?thesis unfolding conn(2) by (rule inv_trace_proxy) (simp add: c)
qed

lemma reachable_inv:
  "reachable s \<Longrightarrow> inv_core s \<and> inv_queue s \<and> inv_held s \<and> inv_trace s"
proof (induction rule: reachable.induct)
  case reachable_init
  show ?case by (simp add: inv_core_init inv_queue_init inv_held_init inv_trace_init)
next
  case (reachable_step s e s')
  then show ?case
    by (auto intro: inv_core_step inv_queue_step inv_held_step inv_trace_step)
qed

lemma run_reachable: "reachable s \<Longrightarrow> run evs s = Some s' \<Longrightarrow> reachable s'"
proof (induction evs arbitrary: s)
  case Nil
  then show ?case by simp
next
  case (Cons e evs)
  then show ?case by (auto split: option.splits intro: reachable_step)
qed

lemmas exec_defs = init_def step_def httpRequest_def hookEnsure_def ensureFirstServer_def
  restartVite_def startBody_def awaitPromise_def swapIO_def afterCreate_def afterLoad_def
  getServerBuild_def getServerBuild_loaded_def finishSwap_def settle_def tick_def hookBind_def
  hookThrow_def buildIO_def proxy_def upgrade_def clientClose_def newRequest_def newSwap_def
  newConn_def Let_def

lemma run_init_reachable: "run evs init = Some s \<Longrightarrow> reachable s"
  by (rule run_reachable[OF reachable_init])

lemma filter_upt_all: "(\<forall>j<k. P j) \<Longrightarrow> filter P [0..<k] = [0..<k]"
  by (induction k) simp_all

lemma awaitPromise_frame:
  "activeVite (awaitPromise r p s) = activeVite s"
  "pendingHttpRequests (awaitPromise r p s) = pendingHttpRequests s"
  "pendingWsConnections (awaitPromise r p s) = pendingWsConnections s"
  "serverIdCounter (awaitPromise r p s) = serverIdCounter s"
  "nswaps (awaitPromise r p s) = nswaps s"
  "restartPromise (awaitPromise r p s) = restartPromise s"
  "pc (swaps (awaitPromise r p s) k) = pc (swaps s k)"
  by (simp_all add: awaitPromise_def split: option.splits swap_pc.splits)

lemma hookEnsure_frame:
  "activeVite (hookEnsure r s) = activeVite s"
  "pendingHttpRequests (hookEnsure r s) = pendingHttpRequests s"
  "pendingWsConnections (hookEnsure r s) = pendingWsConnections s"
  "serverIdCounter (hookEnsure r s) = serverIdCounter s"
  by (cases rule: hookEnsure_cases[where s = s and r = r]; simp add: awaitPromise_frame)+

lemma proxy_frame:
  "activeVite (proxy c s) = activeVite s"
  "pendingHttpRequests (proxy c s) = pendingHttpRequests s"
  "pendingWsConnections (proxy c s) = pendingWsConnections s"
  "serverIdCounter (proxy c s) = serverIdCounter s"
  "nswaps (proxy c s) = nswaps s"
  "restartPromise (proxy c s) = restartPromise s"
  "swaps (proxy c s) = swaps s"
  by (simp_all add: proxy_def split: option.splits)

lemma stuck_hookEnsure:
  assumes "restartPromise s = Some k" "pc (swaps s k) = SwapFailed"
  shows "stuck k s (hookEnsure r s)"
  using assms
  by (cases rule: hookEnsure_cases[where s = s and r = r])
     (simp_all add: stuck_def awaitPromise_frame)

lemma stuck_step:
  assumes "inv_core s" "restartPromise s = Some k" "pc (swaps s k) = SwapFailed"
    "step e s = Some s'"
  shows "stuck k s s'"
proof -
  have dead: "\<And>j. j < nswaps s \<Longrightarrow> pc (swaps s j) \<noteq> SwapDone \<Longrightarrow> pc (swaps s j) = SwapFailed"
    using inv_core_live[OF assms(1)] assms(2,3) by auto
  from assms(4) show ?thesis
  proof (cases rule: step_leaves)
    case arrive
    with assms(2) show ?thesis by simp
  next
    case (resume r ms)
    have "stuck k (s\<lparr>ready := ms\<rparr>) (hookEnsure r (s\<lparr>ready := ms\<rparr>))"
      by (rule stuck_hookEnsure) (simp_all add: assms(2,3))
    then show ?thesis by (simp add: stuck_def resume(2))
  next
    case (rm j)
    with dead[of j] show ?thesis by simp
  next
    case (port_ok j p)
    with dead[of j] show ?thesis by simp
  next
    case (swap_err j)
    with dead[of j] show ?thesis by auto
  next
    case (create_miss j p)
    with dead[of j] show ?thesis by simp
  next
    case (create_hit_closing j p b old)
    with dead[of j] show ?thesis by simp
  next
    case (create_hit_finishing j p b)
    with dead[of j] show ?thesis by simp
  next
    case (load_closing j n b old)
    with dead[of j] show ?thesis by simp
  next
    case (load_finishing j n b)
    with dead[of j] show ?thesis by simp
  next
    case (closed j)
    with dead[of j] show ?thesis by simp
  qed (use assms(2,3) in \<open>simp_all add: stuck_def proxy_frame\<close>)
qed

lemma stuck_run:
  assumes "reachable s" "restartPromise s = Some k" "pc (swaps s k) = SwapFailed"
    "run evs s = Some s'"
  shows "stuck k s s'"
  using assms
proof (induction evs arbitrary: s)
  case Nil
  then show ?case by (simp add: stuck_def)
next
  case (Cons e evs)
  from Cons.prems(4) obtain s1 where s1: "step e s = Some s1" and r: "run evs s1 = Some s'"
    by (auto split: option.splits)
  from reachable_inv[OF Cons.prems(1)] have core: "inv_core s" by simp
  from stuck_step[OF core Cons.prems(2,3) s1] have st: "stuck k s s1" .
  have "stuck k s1 s'"
    by (rule Cons.IH[OF reachable_step[OF Cons.prems(1) s1] _ _ r])
       (use st in \<open>simp_all add: stuck_def\<close>)
  with st show ?case by (simp add: stuck_def)
qed

subsection \<open>Requests parked while a build loads\<close>






























subsection \<open>Events that leave the restarts alone\<close>

lemma same_swaps_refl: "same_swaps s s"
  by (simp add: same_swaps_def)

lemma same_swaps_trans: "same_swaps s t \<Longrightarrow> same_swaps t u \<Longrightarrow> same_swaps s u"
  by (simp add: same_swaps_def)

lemma newServer_awaitPromise:
  "newServer (swaps (awaitPromise r p s) k) = newServer (swaps s k)"
  by (simp add: awaitPromise_def split: option.splits swap_pc.splits)

lemma same_swaps_awaitPromise: "same_swaps s (awaitPromise r p s)"
  by (simp add: same_swaps_def awaitPromise_frame newServer_awaitPromise)

lemma same_swaps_hookEnsure:
  assumes "restartPromise s = Some k"
  shows "same_swaps s (hookEnsure r s)"
proof (cases rule: hookEnsure_cases[where s = s and r = r])
  case active
  then show ?thesis by (simp add: same_swaps_def)
next
  case (waiting k')
  then show ?thesis by (simp add: same_swaps_awaitPromise)
next
  case (joined k')
  have "same_swaps (s\<lparr>initialServerPromise := Some k'\<rparr>)
          (awaitPromise r (Some k') (s\<lparr>initialServerPromise := Some k'\<rparr>))"
    by (rule same_swaps_awaitPromise)
  then show ?thesis unfolding joined(4) by (simp add: same_swaps_def)
next
  case started
  with assms show ?thesis by simp
qed

lemma same_swaps_proxy: "same_swaps s (proxy c s)"
  by (simp add: same_swaps_def proxy_frame)

lemma same_swaps_hookBind: "same_swaps s (hookBind r s)"
proof (cases "activeVite s")
  case None
  then show ?thesis by (simp add: same_swaps_def hookBind_none)
next
  case (Some v)
  then show ?thesis
    by (cases "serverBuildCache s v") (simp_all add: same_swaps_def hookBind_hit hookBind_miss)
qed

lemma same_swaps_step:
  assumes "restartPromise s = Some k" "step e s = Some s'" "\<And>j r. e \<noteq> SwapIO j r"
  shows "same_swaps s s'"
proof (cases e)
  case (HttpRequest b)
  with assms(2) have "s' = httpRequest b s" by (simp add: step_def split: if_splits)
  then show ?thesis
    unfolding httpRequest_held[OF assms(1)] by (simp add: same_swaps_def)
next
  case Upgrade
  with assms(2) have "s' = upgrade s" by (simp add: step_def split: if_splits)
  with assms(1) show ?thesis by (simp add: same_swaps_def upgrade_def Let_def)
next
  case (ClientClose c)
  with assms(2) have "clientClose c s = Some s'" by (simp add: step_def split: if_splits)
  then show ?thesis
    by (auto simp: same_swaps_def clientClose_def Let_def split: if_splits conn_state.splits)
next
  case (SwapIO j r)
  with assms(3)[of j r] show ?thesis by simp
next
  case (BuildIO r res)
  with assms(2) have "buildIO r res s = Some s'" by (simp add: step_def split: if_splits)
  then show ?thesis
    by (auto simp: same_swaps_def buildIO_def Let_def getServerBuild_loaded_def hookThrow_def
             split: if_splits req_state.splits io.splits)
next
  case Tick
  with assms(2) have t: "tick s = Some s'" by (simp add: step_def)
  then obtain m ms where rd: "ready s = m # ms" by (cases "ready s") (simp_all add: tick_def)
  have rp: "restartPromise (s\<lparr>ready := ms\<rparr>) = Some k" using assms(1) by simp
  have base: "same_swaps s (s\<lparr>ready := ms\<rparr>)" by (simp add: same_swaps_def)
  show ?thesis
  proof (cases m)
    case (ResumeReq r)
    with t rd have "s' = hookEnsure r (s\<lparr>ready := ms\<rparr>)" by (simp add: tick_def)
    with same_swaps_hookEnsure[OF rp] base show ?thesis by (auto intro: same_swaps_trans)
  next
    case (BindReq r)
    with t rd have "s' = hookBind r (s\<lparr>ready := ms\<rparr>)" by (simp add: tick_def)
    with same_swaps_hookBind base show ?thesis by (auto intro: same_swaps_trans)
  next
    case (ThrowReq r)
    with t rd have "s' = hookThrow r (s\<lparr>ready := ms\<rparr>)" by (simp add: tick_def)
    then show ?thesis by (simp add: same_swaps_def hookThrow_def)
  next
    case (ResumeConn c)
    with t rd have "s' = proxy c (s\<lparr>ready := ms\<rparr>)" by (simp add: tick_def)
    with same_swaps_proxy base show ?thesis by (auto intro: same_swaps_trans)
  qed
qed

lemma same_swaps_run:
  assumes "restartPromise s = Some k" "run evs s = Some s'"
    "\<forall>e\<in>set evs. \<forall>j r. e \<noteq> SwapIO j r"
  shows "same_swaps s s'"
  using assms
proof (induction evs arbitrary: s)
  case Nil
  then show ?case by (simp add: same_swaps_refl)
next
  case (Cons e evs)
  from Cons.prems(2) obtain s1 where s1: "step e s = Some s1" and r: "run evs s1 = Some s'"
    by (auto split: option.splits)
  from Cons.prems(3) have ne: "\<And>j r. e \<noteq> SwapIO j r" by simp
  from same_swaps_step[OF Cons.prems(1) s1 ne] have a: "same_swaps s s1" .
  then have "restartPromise s1 = Some k" using Cons.prems(1) by (simp add: same_swaps_def)
  from Cons.IH[OF this r] Cons.prems(3) have "same_swaps s1 s'" by simp
  with a show ?case by (rule same_swaps_trans)
qed


lemma swapIO_Err:
  assumes "swapIO k Err s = Some t"
  shows "newServer (swaps t k) = newServer (swaps s k) \<and>
         serverIdCounter t = serverIdCounter s \<and> nswaps t = nswaps s \<and>
         (pc (swaps s k) \<noteq> AwaitRm \<and> pc (swaps s k) \<noteq> AwaitClose \<longrightarrow>
            pc (swaps t k) = SwapFailed)"
  using assms
  by (cases "pc (swaps s k)")
     (auto simp: swapIO_def settle_def finishSwap_def split: if_splits)

lemma first_request_run: "run first_request init = Some (the (run first_request init))"
  by (simp add: first_request_def exec_defs)

subsection \<open>The waterfall server\<close>

lemma wf_inv_init: "wf_inv wf_init"
  by (simp add: wf_inv_def wf_init_def wf_newRequest_def)

lemma wf_inv_request_early:
  assumes "wf_inv s" "listening s" "wf_ready s = []" "Suc (wf_nreqs s) < waterfallRestartOn"
  shows "wf_inv (wf_request False s)"
  using assms
  by (auto simp: wf_inv_def wf_request_def wf_attach_def Let_def wf_newRequest_def
           less_Suc_eq split: option.splits)

lemma wf_inv_request_trigger:
  assumes "wf_inv s" "listening s" "wf_ready s = []" "Suc (wf_nreqs s) = waterfallRestartOn"
  shows "wf_inv (wf_request False s)"
  using assms
  by (auto simp: wf_inv_def wf_request_def wf_restartVite_def wf_await_def Let_def
           wf_newRequest_def wf_parked_def wf_late_def less_Suc_eq waterfallRestartOn_def)


lemma wf_late_Suc: "waterfallRestartOn \<le> wf_nreqs s \<Longrightarrow>
  wf_late (s\<lparr>wf_nreqs := Suc (wf_nreqs s)\<rparr>) = insert (wf_nreqs s) (wf_late s)"
  by (auto simp: wf_late_def)

lemma wf_inv_request_late:
  assumes "wf_inv s" "listening s" "wf_ready s = []" "waterfallRestartOn \<le> wf_nreqs s"
  shows "wf_inv (wf_request False s)"
proof -
  from assms have rs: "restarting s = Some 1" "wf_nrestarts s = 2"
    "waterfallCounter s = wf_nreqs s"
    by (auto simp: wf_inv_def split: if_splits)
  show ?thesis
  proof (cases "wf_pc (wf_restarts s 1)")
    case WfAwaitPorts
    with assms rs show ?thesis
      by (auto simp: wf_inv_def wf_request_def wf_await_def Let_def wf_newRequest_def
           wf_parked_def wf_late_def less_Suc_eq)
  next
    case WfAwaitCreate
    with assms rs show ?thesis
      by (auto simp: wf_inv_def wf_request_def wf_await_def Let_def wf_newRequest_def
           wf_parked_def wf_late_def less_Suc_eq)
  next
    case (WfAwaitLoad n)
    with assms rs show ?thesis
      by (auto simp: wf_inv_def wf_request_def wf_await_def Let_def wf_newRequest_def
           wf_parked_def wf_late_def less_Suc_eq)
  next
    case WfDone
    with assms rs show ?thesis
      by (auto simp: wf_inv_def wf_request_def wf_await_def Let_def wf_newRequest_def
           wf_late_def less_Suc_eq)
  next
    case WfFailed
    with assms rs show ?thesis
      by (auto simp: wf_inv_def wf_request_def wf_await_def Let_def wf_newRequest_def
           wf_late_def less_Suc_eq)
  qed
qed

lemma wf_inv_request:
  assumes "wf_inv s" "listening s" "wf_ready s = []"
  shows "wf_inv (wf_request False s)"
proof -
  consider "Suc (wf_nreqs s) < waterfallRestartOn" | "Suc (wf_nreqs s) = waterfallRestartOn"
    | "waterfallRestartOn \<le> wf_nreqs s" by linarith
  then show ?thesis
    using assms
    by cases (simp_all add: wf_inv_request_early wf_inv_request_trigger wf_inv_request_late)
qed


lemma wf_inv_restartIO_boot:
  assumes "wf_inv s" "\<not> listening s" "wf_restartIO k r s = Some s'"
  shows "wf_inv s'"
proof -
  from assms have k: "k = 0"
    by (auto simp: wf_inv_def wf_restartIO_def split: if_splits)
  show ?thesis
  proof (cases "wf_pc (wf_restarts s 0)")
    case WfAwaitPorts
    with assms k show ?thesis
      by (cases r) (auto simp: wf_inv_def wf_restartIO_def wf_settle_def)
  next
    case WfAwaitCreate
    with assms k show ?thesis
      by (cases r)
         (auto simp: wf_inv_def wf_restartIO_def wf_settle_def Let_def split: option.splits)
  next
    case (WfAwaitLoad n)
    with assms k show ?thesis
      by (cases r) (auto simp: wf_inv_def wf_restartIO_def wf_settle_def)
  next
    case WfDone
    with assms(3) show ?thesis unfolding k by (simp add: wf_restartIO_def split: if_splits)
  next
    case WfFailed
    with assms(3) show ?thesis unfolding k by (simp add: wf_restartIO_def split: if_splits)
  qed
qed

lemma wf_inv_restartIO_listening:
  assumes "wf_inv s" "listening s" "wf_restartIO k r s = Some s'"
  shows "wf_inv s'"
proof -
  from assms have p0: "wf_pc (wf_restarts s 0) = WfDone"
    by (auto simp: wf_inv_def)
  have k0: "k \<noteq> 0"
  proof
    assume "k = 0"
    with p0 assms(3) show False by (simp add: wf_restartIO_def split: if_splits)
  qed
  with assms have big: "\<not> wf_nreqs s < waterfallRestartOn" and k: "k = 1"
    by (auto simp: wf_inv_def wf_restartIO_def split: if_splits)
  have late: "\<And>f g h c. wf_late (s\<lparr>wf_restarts := f\<rparr>) = wf_late s"
    "\<And>f g h c. wf_late (s\<lparr>wf_restarts := f, wf_ready := g\<rparr>) = wf_late s"
    "\<And>f g h c. wf_late (s\<lparr>wf_serverIdCounter := c, vite_server := h, wf_restarts := f\<rparr>)
        = wf_late s"
    "\<And>f g h c. wf_late (s\<lparr>wf_serverIdCounter := c, vite_server := h, wf_restarts := f,
        wf_ready := g\<rparr>) = wf_late s"
    "\<And>f g h c. wf_late (s\<lparr>wf_serverBuildCache := c, wf_restarts := f, wf_ready := g\<rparr>)
        = wf_late s"
    by (simp_all add: wf_late_def)
  show ?thesis
  proof (cases "wf_pc (wf_restarts s 1)")
    case WfAwaitPorts
    with assms k big p0 show ?thesis
      by (cases r) (auto simp: wf_inv_def wf_restartIO_def wf_settle_def wf_parked_def late)
  next
    case WfAwaitCreate
    with assms k big p0 show ?thesis
      by (cases r)
         (auto simp: wf_inv_def wf_restartIO_def wf_settle_def wf_parked_def late Let_def
                     numeral_2_eq_2
               split: option.splits)
  next
    case (WfAwaitLoad n)
    with assms k big p0 show ?thesis
      by (cases r) (auto simp: wf_inv_def wf_restartIO_def wf_settle_def wf_parked_def late)
  next
    case WfDone
    with assms(3) show ?thesis unfolding k by (simp add: wf_restartIO_def split: if_splits)
  next
    case WfFailed
    with assms(3) show ?thesis unfolding k by (simp add: wf_restartIO_def split: if_splits)
  qed
qed

lemma wf_inv_idle:
  assumes "wf_inv s"
  shows "wf_fsIO r res s = None" "wf_buildIO r res s = None"
proof -
  from assms have "wf_rstate (wf_reqs s r) = WfWaiting \<or> wf_rstate (wf_reqs s r) = WfServed \<or>
          wf_rstate (wf_reqs s r) = WfErrored"
    by (simp add: wf_inv_def)
  then show "wf_fsIO r res s = None" "wf_buildIO r res s = None"
    by (auto simp: wf_fsIO_def wf_buildIO_def)
qed


lemma wf_inv_tick_boot:
  assumes "wf_inv s" "\<not> listening s" "wf_tick s = Some s'"
  shows "wf_inv s'"
proof (cases "wf_pc (wf_restarts s 0)")
  case WfAwaitPorts
  with assms show ?thesis by (auto simp: wf_inv_def wf_tick_def)
next
  case WfAwaitCreate
  with assms show ?thesis by (auto simp: wf_inv_def wf_tick_def)
next
  case (WfAwaitLoad n)
  with assms show ?thesis by (auto simp: wf_inv_def wf_tick_def)
next
  case WfDone
  with assms show ?thesis
    by (auto simp: wf_inv_def wf_tick_def waterfallRestartOn_def)
next
  case WfFailed
  with assms show ?thesis by (auto simp: wf_inv_def wf_tick_def) blast+
qed

lemma wf_inv_tick_listening:
  assumes "wf_inv s" "listening s" "wf_tick s = Some s'"
  shows "wf_inv s'"
proof -
  from assms have big: "\<not> wf_nreqs s < waterfallRestartOn"
    by (auto simp: wf_inv_def wf_tick_def)
  have late: "\<And>f g. wf_late (s\<lparr>wf_ready := g, wf_reqs := f\<rparr>) = wf_late s"
    by (simp add: wf_late_def)
  have early: "\<And>r. r \<in> wf_late s \<Longrightarrow> \<not> Suc r < waterfallRestartOn"
    by (simp add: wf_late_def)
  show ?thesis
  proof (cases "wf_pc (wf_restarts s 1)")
    case WfAwaitPorts
    with assms big show ?thesis by (auto simp: wf_inv_def wf_tick_def wf_parked_def)
  next
    case WfAwaitCreate
    with assms big show ?thesis by (auto simp: wf_inv_def wf_tick_def wf_parked_def)
  next
    case (WfAwaitLoad n)
    with assms big show ?thesis by (auto simp: wf_inv_def wf_tick_def wf_parked_def)
  next
    case WfDone
    from assms big WfDone obtain m ms r where
      rd: "wf_ready s = m # ms" and m: "m = WfFulfilled (WfBind r)" and r: "r \<in> wf_late s"
      by (cases "wf_ready s") (auto simp: wf_inv_def wf_tick_def)
    from assms big WfDone rd m r early[OF r] show ?thesis
      by (auto simp: wf_inv_def wf_tick_def wf_attach_def late) blast+
  next
    case WfFailed
    from assms big WfFailed obtain m ms r where
      rd: "wf_ready s = m # ms" and m: "m = WfRejected (WfBind r)" and r: "r \<in> wf_late s"
      by (cases "wf_ready s") (auto simp: wf_inv_def wf_tick_def)
    from assms big WfFailed rd m r early[OF r] show ?thesis
      by (auto simp: wf_inv_def wf_tick_def late) blast+
  qed
qed

lemma wf_inv_step:
  assumes "wf_inv s" "wf_step e s = Some s'" "e \<noteq> WfRequest True"
  shows "wf_inv s'"
proof (cases e)
  case (WfRequest root)
  with assms show ?thesis
    by (auto simp: wf_step_def wf_inv_request split: if_splits)
next
  case (WfRestartIO k r)
  with assms show ?thesis
    by (cases "listening s")
       (auto simp: wf_step_def split: if_splits
             intro: wf_inv_restartIO_boot wf_inv_restartIO_listening)
next
  case (WfFsIO r res)
  with assms show ?thesis by (simp add: wf_step_def wf_inv_idle split: if_splits)
next
  case (WfBuildIO r res)
  with assms show ?thesis by (simp add: wf_step_def wf_inv_idle split: if_splits)
next
  case WfTick
  with assms show ?thesis
    by (cases "listening s")
       (auto simp: wf_step_def intro: wf_inv_tick_boot wf_inv_tick_listening)
qed

lemma wf_inv_run:
  "wf_inv s \<Longrightarrow> wf_run evs s = Some s' \<Longrightarrow> WfRequest True \<notin> set evs \<Longrightarrow> wf_inv s'"
proof (induction evs arbitrary: s)
  case Nil
  then show ?case by simp
next
  case (Cons e evs)
  then obtain s1 where s1: "wf_step e s = Some s1" "wf_run evs s1 = Some s'"
    by (auto split: option.splits)
  from Cons.prems s1(1) have "wf_inv s1" by (auto intro: wf_inv_step)
  with Cons s1(2) show ?case by auto
qed


text \<open>
  Once the second restart is done, every continuation in the microtask queue binds a
  request; running as many of them as the queue holds empties it.
\<close>

lemma wf_tick_bind:
  assumes "wf_inv s" "waterfallRestartOn \<le> wf_nreqs s" "wf_pc (wf_restarts s 1) = WfDone"
    "wf_ready s = m # ms"
  shows "\<exists>s1. wf_step WfTick s = Some s1 \<and> wf_ready s1 = ms \<and> wf_nreqs s1 = wf_nreqs s \<and>
           wf_pc (wf_restarts s1 1) = WfDone"
proof -
  from assms(1,2) have l: "listening s"
    by (auto simp: wf_inv_def waterfallRestartOn_def split: if_splits)
  with assms(1,2,3) have sw: "wf_swap_ok s WfDone" by (auto simp: wf_inv_def split: if_splits)
  with assms(4) obtain r where m: "m = WfFulfilled (WfBind r)" by auto
  from sw obtain b where v: "vite_server s = Some 2" and c: "wf_serverBuildCache s 2 = Some b"
    by auto
  show ?thesis
    using assms(3) by (simp add: wf_step_def wf_tick_def assms(4) m v c wf_attach_def)
qed

lemma wf_drain:
  assumes "wf_inv s" "waterfallRestartOn \<le> wf_nreqs s" "wf_pc (wf_restarts s 1) = WfDone"
    "length (wf_ready s) = n"
  shows "\<exists>s'. wf_run (replicate n WfTick) s = Some s' \<and> wf_ready s' = [] \<and>
           wf_nreqs s' = wf_nreqs s \<and> wf_pc (wf_restarts s' 1) = WfDone \<and> wf_inv s'"
  using assms
proof (induction n arbitrary: s)
  case 0
  then show ?case by simp
next
  case (Suc n)
  from Suc.prems(4) obtain m ms where rd: "wf_ready s = m # ms" and len: "length ms = n"
    by (cases "wf_ready s") simp_all
  from wf_tick_bind[OF Suc.prems(1,2,3) rd] obtain s1 where
    s1: "wf_step WfTick s = Some s1" "wf_ready s1 = ms" "wf_nreqs s1 = wf_nreqs s"
      "wf_pc (wf_restarts s1 1) = WfDone" by blast
  have i1: "wf_inv s1" by (rule wf_inv_step[OF Suc.prems(1) s1(1)]) simp
  from Suc.IH[OF i1 _ s1(4)] s1(2,3) len Suc.prems(2)
  obtain s' where "wf_run (replicate n WfTick) s1 = Some s'" "wf_ready s' = []"
    "wf_nreqs s' = wf_nreqs s1" "wf_pc (wf_restarts s' 1) = WfDone" "wf_inv s'" by auto
  with s1 show ?case by simp
qed

text \<open>What the invariant says about the servers bound to the requests.\<close>

lemma wf_inv_binding:
  assumes "wf_inv s"
  shows "(\<forall>r<wf_nreqs s. Suc r < waterfallRestartOn \<longrightarrow>
            wf_viteServer (wf_reqs s r) = Some 1) \<and>
         (\<forall>r<wf_nreqs s. waterfallRestartOn \<le> Suc r \<longrightarrow>
            wf_viteServer (wf_reqs s r) = None \<or> wf_viteServer (wf_reqs s r) = Some 2) \<and>
         (wf_nreqs s < waterfallRestartOn \<longrightarrow> wf_nrestarts s = 1 \<and> restarting s = None) \<and>
         (waterfallRestartOn \<le> wf_nreqs s \<longrightarrow> wf_nrestarts s = 2 \<and> restarting s = Some 1) \<and>
         (waterfallRestartOn \<le> wf_nreqs s \<and> wf_pc (wf_restarts s 1) = WfDone \<and>
          wf_ready s = [] \<longrightarrow>
            vite_server s = Some 2 \<and>
            (\<forall>r<wf_nreqs s. waterfallRestartOn \<le> Suc r \<longrightarrow>
               wf_viteServer (wf_reqs s r) = Some 2))"
proof -
  note inv = assms
  show ?thesis
  proof (cases "listening s")
    case False
    with inv show ?thesis by (simp add: wf_inv_def waterfallRestartOn_def)
  next
    case True
    note l = True
    show ?thesis
    proof (cases "wf_nreqs s < waterfallRestartOn")
      case True
      with inv l show ?thesis by (auto simp: wf_inv_def)
    next
      case False
      with inv l have sw: "wf_swap_ok s (wf_pc (wf_restarts s 1))"
        and e: "\<forall>r<wf_nreqs s. Suc r < waterfallRestartOn \<longrightarrow>
            wf_viteServer (wf_reqs s r) = Some 1"
        and n: "wf_nrestarts s = 2" "restarting s = Some 1"
        by (simp_all add: wf_inv_def)
      have late: "\<And>r. r < wf_nreqs s \<Longrightarrow> waterfallRestartOn \<le> Suc r \<Longrightarrow> r \<in> wf_late s"
        by (simp add: wf_late_def)
      have b: "\<forall>r<wf_nreqs s. waterfallRestartOn \<le> Suc r \<longrightarrow>
            wf_viteServer (wf_reqs s r) = None \<or> wf_viteServer (wf_reqs s r) = Some 2"
        using sw late
        by (cases "wf_pc (wf_restarts s 1)") (auto simp: wf_parked_def)
      have c: "wf_pc (wf_restarts s 1) = WfDone \<and> wf_ready s = [] \<longrightarrow>
            vite_server s = Some 2 \<and>
            (\<forall>r<wf_nreqs s. waterfallRestartOn \<le> Suc r \<longrightarrow>
               wf_viteServer (wf_reqs s r) = Some 2)"
        using sw late by auto
      from e b c n False show ?thesis by simp
    qed
  qed
qed

lemmas wf_exec_defs = wf_init_def wf_step_def wf_request_def wf_restartVite_def wf_await_def
  wf_settle_def wf_restartIO_def wf_attach_def wf_tick_def wf_newRequest_def
  waterfallRestartOn_def Let_def

lemma map_upt_const:
  "(\<And>r. a \<le> r \<Longrightarrow> r < b \<Longrightarrow> f r = c) \<Longrightarrow> map f [a..<b] = replicate (b - a) c"
proof (induction b)
  case 0
  then show ?case by simp
next
  case (Suc b)
  show ?case
  proof (cases "a \<le> b")
    case True
    with Suc have "map f [a..<b] = replicate (b - a) c" "f b = c" by simp_all
    with True show ?thesis by (simp add: Suc_diff_le replicate_append_same)
  next
    case False
    then show ?thesis by simp
  qed
qed

lemma waterfall_final:
  "\<exists>s. wf_run waterfall wf_init = Some s \<and> wf_nreqs s = 39 \<and>
       wf_pc (wf_restarts s 1) = WfDone \<and> wf_ready s = []"
  by (simp add: waterfall_def wf_startup_def wf_exec_defs numeral_eq_Suc)

section \<open>The claims\<close>

text \<open>
  C10.  An upgrade that reaches the proxy while no restart is running and no server has
  ever become active finds no HMR port: the handler destroys the client socket, and no
  outbound connect is made for it.
\<close>

theorem upgrade_without_port_destroyed:
  assumes "reachable s" and "ready s = []" and "restartPromise s = None"
    and "activeVite s = None"
  shows "activeHmrPort s = None \<and>
         (\<exists>s'. step Upgrade s = Some s' \<and>
               cstate (conns s' (nconns s)) = ConnDestroyed \<and>
               trace s' = trace s @ [DestroySocket (nconns s)] \<and>
               (\<forall>p. Connect (nconns s) p \<notin> set (trace s')))"
proof -
  from reachable_inv[OF assms(1)] have core: "inv_core s" and tr: "inv_trace s" by simp_all
  from core assms(4) have port: "activeHmrPort s = None"
    by (auto simp: inv_core_def split: if_splits)
  from tr have fresh: "\<forall>p. Connect (nconns s) p \<notin> set (trace s)"
    by (auto simp: inv_trace_def)
  from assms(2,3) port fresh show ?thesis
    by (simp add: step_def upgrade_def proxy_def Let_def)
qed

theorem upgrade_without_port_destroyed_witness:
  "reachable init \<and> ready init = [] \<and> restartPromise init = None \<and> activeVite init = None \<and>
   activeHmrPort init = None \<and>
   (\<exists>s'. step Upgrade init = Some s' \<and>
         cstate (conns s' (nconns init)) = ConnDestroyed \<and>
         trace s' = trace init @ [DestroySocket (nconns init)] \<and>
         (\<forall>p. Connect (nconns init) p \<notin> set (trace s')))"
proof -
  have h: "ready init = []" "restartPromise init = None" "activeVite init = None"
    by (simp_all add: init_def)
  from upgrade_without_port_destroyed[OF reachable_init h] reachable_init h
  show ?thesis by simp
qed

text \<open>
  C2 (as stated, refuted).  The first request and a request for \<open>env.mjs\<close> both
  call \<open>restartVite\<close>; the two calls make one restart.  \<open>createServer\<close> then
  throws: one restart was started, and no server was created by it.
\<close>

theorem failed_swap_creates_no_server:
  "run two_triggers_create_fails init \<noteq> None \<and>
   hasTriggeredRestart (the (run two_triggers_create_fails init)) \<and>
   nswaps (the (run two_triggers_create_fails init)) = 1 \<and>
   pc (swaps (the (run two_triggers_create_fails init)) 0) = SwapFailed \<and>
   newServer (swaps (the (run two_triggers_create_fails init)) 0) = None \<and>
   serverIdCounter (the (run two_triggers_create_fails init)) = 0 \<and>
   activeVite (the (run two_triggers_create_fails init)) = None \<and>
   trace (the (run two_triggers_create_fails init)) = [RmCache, GetPort, CreateServer 5173]"
  by (simp add: two_triggers_create_fails_def exec_defs)

text \<open>
  C2 (amended).  While a restart promise is present and none of the restart's awaited
  operations completes, whatever requests, upgrades, disconnects and continuations run, a
  call of \<open>restartVite\<close> returns that promise and changes nothing: no restart body
  is started and no server is created, and an awaited operation that throws creates none
  either.  A call without a restart promise starts one restart body and creates no server
  by itself.  Restart number \<open>j\<close> creates at most one server, the one numbered
  \<open>j + 1\<close>: none as long as it has not got past \<open>createServer\<close>, one once
  it has.  The number of servers created is the number of restarts that got past
  \<open>createServer\<close>.
\<close>

theorem triggers_collapse:
  assumes "reachable s" and "run evs s = Some s'"
    and "\<forall>e\<in>set evs. \<forall>j r. e \<noteq> SwapIO j r"
  shows "(\<forall>k. restartPromise s = Some k \<longrightarrow>
            restartVite s' = (s', k) \<and> nswaps s' = nswaps s \<and>
            serverIdCounter s' = serverIdCounter s \<and>
            (\<forall>j. pc (swaps s' j) = pc (swaps s j) \<and>
                 newServer (swaps s' j) = newServer (swaps s j)) \<and>
            (\<forall>t. swapIO k Err s' = Some t \<longrightarrow>
                 newServer (swaps t k) = newServer (swaps s' k) \<and>
                 serverIdCounter t = serverIdCounter s')) \<and>
         (restartPromise s' = None \<longrightarrow>
            snd (restartVite s') = nswaps s' \<and>
            restartPromise (fst (restartVite s')) = Some (nswaps s') \<and>
            nswaps (fst (restartVite s')) = Suc (nswaps s') \<and>
            serverIdCounter (fst (restartVite s')) = serverIdCounter s') \<and>
         (\<forall>j<nswaps s'. newServer (swaps s' j) = None \<or>
              newServer (swaps s' j) = Some (Suc j)) \<and>
         (\<forall>j<nswaps s'. pc (swaps s' j) = AwaitRm \<or> pc (swaps s' j) = AwaitPort \<or>
              (\<exists>p. pc (swaps s' j) = AwaitCreate p) \<longrightarrow> newServer (swaps s' j) = None) \<and>
         (\<forall>j<nswaps s'. (\<exists>n. pc (swaps s' j) = AwaitLoad n) \<or> pc (swaps s' j) = AwaitClose \<or>
              pc (swaps s' j) = SwapDone \<longrightarrow> newServer (swaps s' j) = Some (Suc j)) \<and>
         serverIdCounter s' =
           length (filter (\<lambda>j. newServer (swaps s' j) \<noteq> None) [0..<nswaps s'])"
proof -
  have rs: "reachable s'" by (rule run_reachable[OF assms(1,2)])
  from reachable_inv[OF rs] have core: "inv_core s'" by simp
  have a: "\<forall>k. restartPromise s = Some k \<longrightarrow>
            restartVite s' = (s', k) \<and> nswaps s' = nswaps s \<and>
            serverIdCounter s' = serverIdCounter s \<and>
            (\<forall>j. pc (swaps s' j) = pc (swaps s j) \<and>
                 newServer (swaps s' j) = newServer (swaps s j)) \<and>
            (\<forall>t. swapIO k Err s' = Some t \<longrightarrow>
                 newServer (swaps t k) = newServer (swaps s' k) \<and>
                 serverIdCounter t = serverIdCounter s')"
  proof (intro allI impI)
    fix k assume rp0: "restartPromise s = Some k"
    from same_swaps_run[OF rp0 assms(2,3)] have same: "same_swaps s s'" .
    with rp0 have rp: "restartPromise s' = Some k" by (simp add: same_swaps_def)
    have 1: "restartVite s' = (s', k)" by (rule restartVite_Some[OF rp])
    from same have 2: "nswaps s' = nswaps s" "serverIdCounter s' = serverIdCounter s"
      "\<forall>j. pc (swaps s' j) = pc (swaps s j) \<and> newServer (swaps s' j) = newServer (swaps s j)"
      by (simp_all add: same_swaps_def)
    have 3: "\<forall>t. swapIO k Err s' = Some t \<longrightarrow>
              newServer (swaps t k) = newServer (swaps s' k) \<and>
              serverIdCounter t = serverIdCounter s'"
      using swapIO_Err by blast
    from 1 2 3 show "restartVite s' = (s', k) \<and> nswaps s' = nswaps s \<and>
            serverIdCounter s' = serverIdCounter s \<and>
            (\<forall>j. pc (swaps s' j) = pc (swaps s j) \<and>
                 newServer (swaps s' j) = newServer (swaps s j)) \<and>
            (\<forall>t. swapIO k Err s' = Some t \<longrightarrow>
                 newServer (swaps t k) = newServer (swaps s' k) \<and>
                 serverIdCounter t = serverIdCounter s')" by blast
  qed
  have b: "restartPromise s' = None \<longrightarrow>
            snd (restartVite s') = nswaps s' \<and>
            restartPromise (fst (restartVite s')) = Some (nswaps s') \<and>
            nswaps (fst (restartVite s')) = Suc (nswaps s') \<and>
            serverIdCounter (fst (restartVite s')) = serverIdCounter s'"
    by (simp add: restartVite_None startBody_def)
  have ok: "\<forall>j<nswaps s'. pc_ok j (swaps s' j)"
    using core by (simp add: inv_core_def)
  have c: "\<forall>j<nswaps s'. newServer (swaps s' j) = None \<or>
              newServer (swaps s' j) = Some (Suc j)"
  proof (intro allI impI)
    fix j assume "j < nswaps s'"
    with ok have "pc_ok j (swaps s' j)" by simp
    then show "newServer (swaps s' j) = None \<or> newServer (swaps s' j) = Some (Suc j)"
      by (cases "pc (swaps s' j)") (auto simp: pc_ok_def)
  qed
  have d: "\<forall>j<nswaps s'. pc (swaps s' j) = AwaitRm \<or> pc (swaps s' j) = AwaitPort \<or>
              (\<exists>p. pc (swaps s' j) = AwaitCreate p) \<longrightarrow> newServer (swaps s' j) = None"
    using ok by (auto simp: pc_ok_def)
  have e: "\<forall>j<nswaps s'. (\<exists>n. pc (swaps s' j) = AwaitLoad n) \<or> pc (swaps s' j) = AwaitClose \<or>
              pc (swaps s' j) = SwapDone \<longrightarrow> newServer (swaps s' j) = Some (Suc j)"
    using ok by (auto simp: pc_ok_def)
  have g: "serverIdCounter s' =
           length (filter (\<lambda>j. newServer (swaps s' j) \<noteq> None) [0..<nswaps s'])"
  proof (cases "restartPromise s'")
    case None
    with core have dn: "\<forall>j<nswaps s'. pc (swaps s' j) = SwapDone"
      and cnt: "serverIdCounter s' = nswaps s'"
      by (simp_all add: inv_core_def)
    from dn e have "\<forall>j<nswaps s'. newServer (swaps s' j) \<noteq> None" by simp
    then have "filter (\<lambda>j. newServer (swaps s' j) \<noteq> None) [0..<nswaps s'] = [0..<nswaps s']"
      by (rule filter_upt_all)
    with cnt show ?thesis by simp
  next
    case (Some k)
    with core have n: "nswaps s' = Suc k" and dn: "\<forall>j<k. pc (swaps s' j) = SwapDone"
      and cnt: "serverIdCounter s' = (if newServer (swaps s' k) = None then k else Suc k)"
      by (simp_all add: inv_core_def)
    from dn e n have "\<forall>j<k. newServer (swaps s' j) \<noteq> None" by simp
    then have "filter (\<lambda>j. newServer (swaps s' j) \<noteq> None) [0..<k] = [0..<k]"
      by (rule filter_upt_all)
    with n cnt show ?thesis by simp
  qed
  from a b c d e g show ?thesis by blast
qed

theorem triggers_collapse_witness:
  "reachable (the (run first_request init)) \<and>
   restartPromise (the (run first_request init)) = Some 0 \<and>
   run more_triggers (the (run first_request init)) =
     Some (the (run more_triggers (the (run first_request init)))) \<and>
   set more_triggers = {HttpRequest True, Upgrade, HttpRequest False} \<and>
   hasTriggeredRestart (the (run more_triggers (the (run first_request init)))) \<and>
   nreqs (the (run more_triggers (the (run first_request init)))) = 4 \<and>
   restartVite (the (run more_triggers (the (run first_request init)))) =
     (the (run more_triggers (the (run first_request init))), 0) \<and>
   nswaps (the (run more_triggers (the (run first_request init)))) = 1 \<and>
   serverIdCounter (the (run more_triggers (the (run first_request init)))) = 0 \<and>
   newServer (swaps (the (run more_triggers (the (run first_request init)))) 0) = None"
proof -
  let ?a = "the (run first_request init)"
  let ?b = "the (run more_triggers ?a)"
  have r: "reachable ?a" by (rule run_init_reachable[OF first_request_run])
  have rp: "restartPromise ?a = Some 0" by (simp add: first_request_def exec_defs)
  have rn: "run more_triggers ?a = Some ?b"
    by (simp add: more_triggers_def first_request_def exec_defs)
  have ev: "\<forall>e\<in>set more_triggers. \<forall>j r. e \<noteq> SwapIO j r"
    by (simp add: more_triggers_def)
  have st: "set more_triggers = {HttpRequest True, Upgrade, HttpRequest False}"
    by (auto simp: more_triggers_def)
  have h: "hasTriggeredRestart ?b" "nreqs ?b = 4"
    by (simp_all add: more_triggers_def first_request_def exec_defs)
  have n: "nswaps ?a = 1" "serverIdCounter ?a = 0" "newServer (swaps ?a 0) = None"
    by (simp_all add: first_request_def exec_defs)
  note t = triggers_collapse[OF r rn ev, THEN conjunct1, rule_format, OF rp]
  from t have t1: "restartVite ?b = (?b, 0)" by (rule conjunct1)
  from t have "nswaps ?b = nswaps ?a" "serverIdCounter ?b = serverIdCounter ?a"
    "newServer (swaps ?b 0) = newServer (swaps ?a 0)" by blast+
  with n have t2: "nswaps ?b = 1" "serverIdCounter ?b = 0"
    and t3: "newServer (swaps ?b 0) = None" by simp_all
  show ?thesis by (intro conjI r rp rn st h t1 t2 t3)
qed



text \<open>
  C4 (as stated, refuted).  While the first server's build is still loading,
  \<open>activeVite\<close> already points to it, its build is not in the cache, and a request
  and an upgrade are still parked.
\<close>

theorem active_before_preload:
  "run held_before_preload init \<noteq> None \<and>
   activeVite (the (run held_before_preload init)) = Some 1 \<and>
   serverBuildCache (the (run held_before_preload init)) 1 = None \<and>
   pendingHttpRequests (the (run held_before_preload init)) = [1] \<and>
   pendingWsConnections (the (run held_before_preload init)) = [0] \<and>
   trace (the (run held_before_preload init)) =
     [RmCache, GetPort, CreateServer 5173, Activate 1, LoadModule 1]"
  by (simp add: held_before_preload_def boot_def exec_defs)

text \<open>
  C4 (amended).  \<open>activeVite\<close> is set to the new server in the step that creates
  it, before the build is loaded and with the hold queues untouched.  Parked requests and
  upgrades are released only in a later step, in which \<open>activeVite\<close> already
  points to the new server and after which that server's build is in the cache.
\<close>

theorem release_after_preload:
  assumes "reachable s" and "step e s = Some s'"
  shows "(activeVite s' \<noteq> activeVite s \<longrightarrow>
           (\<exists>n. activeVite s' = Some n \<and> serverBuildCache s' n = None \<and>
                pendingHttpRequests s' = pendingHttpRequests s \<and>
                pendingWsConnections s' = pendingWsConnections s \<and>
                trace s' = trace s @ [Activate n, LoadModule n])) \<and>
         ((\<exists>r. r \<in> set (pendingHttpRequests s) \<and> r \<notin> set (pendingHttpRequests s')) \<or>
          (\<exists>c. c \<in> set (pendingWsConnections s) \<and> c \<notin> set (pendingWsConnections s')) \<longrightarrow>
           (\<exists>n b. activeVite s = Some n \<and> activeVite s' = Some n \<and>
                  serverBuildCache s' n = Some b \<and>
                  ready s' = map ResumeReq (pendingHttpRequests s) @
                             map ResumeConn (pendingWsConnections s) @
                             drop (length (pendingHttpRequests s) +
                                   length (pendingWsConnections s)) (ready s')))"
proof -
  from reachable_inv[OF assms(1)] have core: "inv_core s" by simp
  from assms(2) show ?thesis
  proof (cases rule: step_leaves)
    case (create_miss k p)
    then show ?thesis by simp
  next
    case (create_hit_closing k p b old)
    with inv_core_fresh[OF core] show ?thesis by simp
  next
    case (create_hit_finishing k p b)
    with inv_core_fresh[OF core] show ?thesis by simp
  next
    case (load_closing k n b old)
    then have rp: "restartPromise s = Some k" using inv_core_live[OF core] by simp
    from inv_core_old[OF core load_closing(2)] load_closing(4)
    have old: "old = k" by (auto split: if_splits)
    from core rp load_closing(3) have n: "n = Suc k" by (auto simp: inv_core_def pc_ok_def)
    from inv_core_loading[OF core rp load_closing(3)] old n show ?thesis
      by (simp add: load_closing(5))
  next
    case (load_finishing k n b)
    then have rp: "restartPromise s = Some k" using inv_core_live[OF core] by simp
    from inv_core_loading[OF core rp load_finishing(3)] show ?thesis
      by (simp add: load_finishing(5))
  qed (auto simp add: hookEnsure_frame proxy_frame)
qed

theorem release_after_preload_witness:
  "reachable (the (run before_create init)) \<and>
   step (SwapIO 0 (Ok 0)) (the (run before_create init)) = Some (the (run boot init)) \<and>
   activeVite (the (run before_create init)) = None \<and>
   activeVite (the (run boot init)) = Some 1 \<and>
   serverBuildCache (the (run boot init)) 1 = None \<and>
   reachable (the (run held_before_preload init)) \<and>
   step (SwapIO 0 (Ok 7)) (the (run held_before_preload init)) =
     Some (the (run (held_before_preload @ [SwapIO 0 (Ok 7)]) init)) \<and>
   pendingHttpRequests (the (run held_before_preload init)) = [1] \<and>
   pendingHttpRequests (the (run (held_before_preload @ [SwapIO 0 (Ok 7)]) init)) = [] \<and>
   activeVite (the (run held_before_preload init)) = Some 1 \<and>
   serverBuildCache (the (run (held_before_preload @ [SwapIO 0 (Ok 7)]) init)) 1 = Some 7"
proof -
  have r1: "run before_create init = Some (the (run before_create init))"
    by (simp add: before_create_def exec_defs)
  have s1: "step (SwapIO 0 (Ok 0)) (the (run before_create init)) = Some (the (run boot init))"
    by (simp add: before_create_def boot_def exec_defs)
  have a1: "activeVite (the (run before_create init)) = None"
    "activeVite (the (run boot init)) = Some 1"
    by (simp_all add: before_create_def boot_def exec_defs)
  have r2: "run held_before_preload init = Some (the (run held_before_preload init))"
    by (simp add: held_before_preload_def boot_def exec_defs)
  have s2: "step (SwapIO 0 (Ok 7)) (the (run held_before_preload init)) =
     Some (the (run (held_before_preload @ [SwapIO 0 (Ok 7)]) init))"
    by (simp add: held_before_preload_def boot_def exec_defs)
  have q2: "pendingHttpRequests (the (run held_before_preload init)) = [1]"
    "pendingHttpRequests (the (run (held_before_preload @ [SwapIO 0 (Ok 7)]) init)) = []"
    "activeVite (the (run held_before_preload init)) = Some 1"
    by (simp_all add: held_before_preload_def boot_def exec_defs)
  from release_after_preload[OF run_init_reachable[OF r1] s1] a1
  have c1: "serverBuildCache (the (run boot init)) 1 = None" by simp
  from release_after_preload[OF run_init_reachable[OF r2] s2] q2
  have c2: "\<exists>b. serverBuildCache (the (run (held_before_preload @ [SwapIO 0 (Ok 7)]) init)) 1
              = Some b"
    by auto
  have v: "serverBuildCache (the (run (held_before_preload @ [SwapIO 0 (Ok 7)]) init)) 1 = Some 7"
    by (simp add: held_before_preload_def boot_def exec_defs)
  from run_init_reachable[OF r1] run_init_reachable[OF r2] s1 a1 c1 s2 q2 c2 v
  show ?thesis by simp
qed

text \<open>
  C9.  The step in which the new server's build has loaded drains the queues: both queues
  are empty afterwards, every continuation that was queued is in the microtask queue once,
  in the order of the queues, the HTTP ones before the WebSocket ones, and none has run yet;
  the \<open>resolve\<close> calls were made in that order, after the build was stored.
\<close>

theorem drain_fifo:
  assumes "reachable s" and "step (SwapIO k (Ok b)) s = Some s'"
    and "pc (swaps s k) = AwaitLoad n"
  shows "pendingHttpRequests s' = [] \<and> pendingWsConnections s' = [] \<and>
         distinct (pendingHttpRequests s) \<and> distinct (pendingWsConnections s) \<and>
         (\<exists>rest. ready s' = map ResumeReq (pendingHttpRequests s) @
                           map ResumeConn (pendingWsConnections s) @ map BindReq rest) \<and>
         (\<exists>post. trace s' = trace s @ CacheSet n # map ResolveHttp (pendingHttpRequests s) @
                           map ResolveWs (pendingWsConnections s) @ post)"
proof -
  from reachable_inv[OF assms(1)] have q: "inv_queue s" by simp
  then have d: "distinct (pendingHttpRequests s)" "distinct (pendingWsConnections s)"
    by (simp_all add: inv_queue_def)
  from assms(2,3) have rd: "ready s = []"
    and s': "s' = afterLoad k (s\<lparr>serverBuildCache := (serverBuildCache s)(n := Some b),
                                  trace := trace s @ [CacheSet n]\<rparr>)"
    by (auto simp: step_def swapIO_def getServerBuild_loaded_def split: if_splits)
  show ?thesis
  proof (cases "oldServer (swaps s k)")
    case None
    with d rd show ?thesis by (auto simp add: s' afterLoad_finishing)
  next
    case (Some old)
    with d rd show ?thesis by (simp add: s' afterLoad_closing)
  qed
qed

theorem drain_fifo_witness:
  "reachable (the (run two_of_each_held init)) \<and>
   pc (swaps (the (run two_of_each_held init)) 0) = AwaitLoad 1 \<and>
   pendingHttpRequests (the (run two_of_each_held init)) = [1, 2] \<and>
   pendingWsConnections (the (run two_of_each_held init)) = [0, 1] \<and>
   step (SwapIO 0 (Ok 7)) (the (run two_of_each_held init)) =
     Some (the (run (two_of_each_held @ [SwapIO 0 (Ok 7)]) init)) \<and>
   pendingHttpRequests (the (run (two_of_each_held @ [SwapIO 0 (Ok 7)]) init)) = [] \<and>
   pendingWsConnections (the (run (two_of_each_held @ [SwapIO 0 (Ok 7)]) init)) = [] \<and>
   ready (the (run (two_of_each_held @ [SwapIO 0 (Ok 7)]) init)) =
     [ResumeReq 1, ResumeReq 2, ResumeConn 0, ResumeConn 1, BindReq 0]"
proof -
  have r: "run two_of_each_held init = Some (the (run two_of_each_held init))"
    by (simp add: two_of_each_held_def boot_def exec_defs)
  have p: "pc (swaps (the (run two_of_each_held init)) 0) = AwaitLoad 1"
    and q: "pendingHttpRequests (the (run two_of_each_held init)) = [1, 2]"
           "pendingWsConnections (the (run two_of_each_held init)) = [0, 1]"
    by (simp_all add: two_of_each_held_def boot_def exec_defs)
  have st: "step (SwapIO 0 (Ok 7)) (the (run two_of_each_held init)) =
     Some (the (run (two_of_each_held @ [SwapIO 0 (Ok 7)]) init))"
    by (simp add: two_of_each_held_def boot_def exec_defs)
  have rd: "ready (the (run (two_of_each_held @ [SwapIO 0 (Ok 7)]) init)) =
     [ResumeReq 1, ResumeReq 2, ResumeConn 0, ResumeConn 1, BindReq 0]"
    by (simp add: two_of_each_held_def boot_def exec_defs)
  from drain_fifo[OF run_init_reachable[OF r] st p] run_init_reachable[OF r] p q st rd
  show ?thesis by simp
qed

text \<open>
  C6 (as stated, refuted).  An upgrade is parked, its client disconnects, the hold stays in
  the queue, the drain releases it, and the proxy connects to the HMR port for it.
\<close>

theorem disconnected_hold_is_proxied:
  "run disconnect_while_held init \<noteq> None \<and>
   cstate (conns (the (run (boot @ [Upgrade]) init)) 0) = ConnHeld \<and>
   pendingWsConnections (the (run (boot @ [Upgrade, ClientClose 0]) init)) = [0] \<and>
   clientGone (conns (the (run (boot @ [Upgrade, ClientClose 0]) init)) 0) \<and>
   trace (the (run disconnect_while_held init)) =
     [RmCache, GetPort, CreateServer 5173, Activate 1, LoadModule 1, CacheSet 1,
      ResolveWs 0, Connect 0 5173]"
  by (simp add: disconnect_while_held_def boot_def exec_defs)

text \<open>
  C6 (amended).  When the client of a parked upgrade disconnects, the hold stays in the
  queue and nothing is called (the close listener is registered only after
  \<open>net.connect\<close>).  When the continuation of such an upgrade runs after the drain,
  the proxy makes the outbound connect to the active HMR port, as for a live client.
\<close>

theorem disconnected_hold_stays_queued:
  assumes "step (ClientClose c) s = Some s1" and "cstate (conns s c) = ConnHeld"
  shows "pendingWsConnections s1 = pendingWsConnections s \<and> trace s1 = trace s \<and>
         cstate (conns s1 c) = ConnHeld \<and> clientGone (conns s1 c) \<and>
         (\<forall>s2 ms p. clientGone (conns s2 c) \<longrightarrow> ready s2 = ResumeConn c # ms \<longrightarrow>
             activeHmrPort s2 = Some p \<longrightarrow> p \<noteq> 0 \<longrightarrow>
             (\<exists>s3. step Tick s2 = Some s3 \<and> trace s3 = trace s2 @ [Connect c p]))"
proof -
  from assms have a: "pendingWsConnections s1 = pendingWsConnections s \<and> trace s1 = trace s \<and>
         cstate (conns s1 c) = ConnHeld \<and> clientGone (conns s1 c)"
    by (auto simp: step_def clientClose_def Let_def split: if_splits)
  have b: "\<forall>s2 ms p. clientGone (conns s2 c) \<longrightarrow> ready s2 = ResumeConn c # ms \<longrightarrow>
             activeHmrPort s2 = Some p \<longrightarrow> p \<noteq> 0 \<longrightarrow>
             (\<exists>s3. step Tick s2 = Some s3 \<and> trace s3 = trace s2 @ [Connect c p])"
    by (simp add: step_def tick_def proxy_def Let_def)
  from a b show ?thesis by blast
qed

theorem disconnected_hold_stays_queued_witness:
  "step (ClientClose 0) (the (run (boot @ [Upgrade]) init)) =
     Some (the (run (boot @ [Upgrade, ClientClose 0]) init)) \<and>
   cstate (conns (the (run (boot @ [Upgrade]) init)) 0) = ConnHeld \<and>
   pendingWsConnections (the (run (boot @ [Upgrade, ClientClose 0]) init)) = [0] \<and>
   clientGone (conns (the (run (boot @ [Upgrade, ClientClose 0, SwapIO 0 (Ok 7)]) init)) 0) \<and>
   ready (the (run (boot @ [Upgrade, ClientClose 0, SwapIO 0 (Ok 7)]) init)) =
     [ResumeConn 0, BindReq 0] \<and>
   activeHmrPort (the (run (boot @ [Upgrade, ClientClose 0, SwapIO 0 (Ok 7)]) init)) = Some 5173 \<and>
   (\<exists>s3. step Tick (the (run (boot @ [Upgrade, ClientClose 0, SwapIO 0 (Ok 7)]) init)) = Some s3 \<and>
         trace s3 = trace (the (run (boot @ [Upgrade, ClientClose 0, SwapIO 0 (Ok 7)]) init))
                    @ [Connect 0 5173])"
proof -
  have st: "step (ClientClose 0) (the (run (boot @ [Upgrade]) init)) =
     Some (the (run (boot @ [Upgrade, ClientClose 0]) init))"
    and h: "cstate (conns (the (run (boot @ [Upgrade]) init)) 0) = ConnHeld"
    and q: "pendingWsConnections (the (run (boot @ [Upgrade, ClientClose 0]) init)) = [0]"
    by (simp_all add: boot_def exec_defs)
  have g: "clientGone (conns (the (run (boot @ [Upgrade, ClientClose 0, SwapIO 0 (Ok 7)]) init)) 0)"
    and rd: "ready (the (run (boot @ [Upgrade, ClientClose 0, SwapIO 0 (Ok 7)]) init)) =
     [ResumeConn 0, BindReq 0]"
    and pt: "activeHmrPort (the (run (boot @ [Upgrade, ClientClose 0, SwapIO 0 (Ok 7)]) init))
       = Some 5173"
    by (simp_all add: boot_def exec_defs)
  from disconnected_hold_stays_queued[OF st h] g rd pt
  have "\<exists>s3. step Tick (the (run (boot @ [Upgrade, ClientClose 0, SwapIO 0 (Ok 7)]) init)) = Some s3 \<and>
         trace s3 = trace (the (run (boot @ [Upgrade, ClientClose 0, SwapIO 0 (Ok 7)]) init))
                    @ [Connect 0 5173]"
    by simp
  with st h q g rd pt show ?thesis by simp
qed

text \<open>
  C1 (as stated, refuted).  After \<open>createServer\<close> has thrown, a later
  \<open>restartVite\<close> call returns the rejected promise: no second restart starts, no
  server is created, the request stays parked.  After the build load has thrown,
  \<open>activeVite\<close> points to the new server, not to the one before the restart.
\<close>

theorem failed_swap_not_retryable:
  "run create_fails init \<noteq> None \<and>
   pc (swaps (the (run create_fails init)) 0) = SwapFailed \<and>
   restartPromise (the (run create_fails init)) = Some 0 \<and>
   restartVite (the (run create_fails init)) = (the (run create_fails init), 0) \<and>
   nswaps (the (run create_fails init)) = 1 \<and>
   serverIdCounter (the (run create_fails init)) = 0 \<and>
   pendingHttpRequests (the (run create_fails init)) = [1] \<and>
   trace (the (run create_fails init)) = [RmCache, GetPort, CreateServer 5173] \<and>
   run load_fails init \<noteq> None \<and>
   oldServer (swaps (the (run load_fails init)) 0) = None \<and>
   activeVite (the (run load_fails init)) = Some 1 \<and>
   pc (swaps (the (run load_fails init)) 0) = SwapFailed \<and>
   restartPromise (the (run load_fails init)) = Some 0 \<and>
   nswaps (the (run load_fails init)) = 1"
  by (simp add: create_fails_def before_create_def load_fails_def boot_def exec_defs)

text \<open>
  C1 (amended).  When \<open>getPort\<close>, \<open>createServer\<close> or the build load throws
  during a restart, the promise is rejected and the continuations waiting on it get the
  error.  If the failure comes before the server is created, \<open>activeVite\<close> is what
  it was when the restart began; if the load fails, \<open>activeVite\<close> already points to
  the new server.  In both cases \<open>restartPromise\<close> keeps the rejected promise: every
  later \<open>restartVite\<close> call returns it, and no further restart or server is ever
  started.
\<close>

theorem failed_swap_keeps_promise:
  assumes "reachable s" and "step (SwapIO k Err) s = Some s1"
    and "pc (swaps s k) \<noteq> AwaitRm" and "pc (swaps s k) \<noteq> AwaitClose"
  shows "pc (swaps s1 k) = SwapFailed \<and> restartPromise s1 = Some k \<and>
         ready s1 = map ThrowReq (waiters (swaps s k)) \<and>
         activeVite s1 = activeVite s \<and>
         (newServer (swaps s k) = None \<longrightarrow> activeVite s1 = oldServer (swaps s k)) \<and>
         (\<forall>n. pc (swaps s k) = AwaitLoad n \<longrightarrow>
              activeVite s1 = Some n \<and> oldServer (swaps s k) \<noteq> Some n) \<and>
         (\<forall>evs s2. run evs s1 = Some s2 \<longrightarrow>
              restartPromise s2 = Some k \<and> pc (swaps s2 k) = SwapFailed \<and>
              restartVite s2 = (s2, k) \<and> nswaps s2 = nswaps s1 \<and>
              serverIdCounter s2 = serverIdCounter s1 \<and> activeVite s2 = activeVite s1)"
proof -
  from reachable_inv[OF assms(1)] have core: "inv_core s" by simp
  from assms(2) have rd: "ready s = []" and io: "swapIO k Err s = Some s1"
    by (auto simp: step_def split: if_splits)
  from io have b: "k < nswaps s" by (auto simp: swapIO_def split: if_splits)
  from io b assms(3,4) have live: "pc (swaps s k) \<noteq> SwapDone"
    and s1: "s1 = settle k False s"
    by (cases "pc (swaps s k)"; simp add: swapIO_def)+
  from inv_core_live[OF core b live] have rp: "restartPromise s = Some k" .
  have a: "pc (swaps s1 k) = SwapFailed \<and> restartPromise s1 = Some k \<and>
         ready s1 = map ThrowReq (waiters (swaps s k)) \<and> activeVite s1 = activeVite s"
    by (simp add: s1 settle_def rp rd)
  have old: "oldServer (swaps s k) = (if k = 0 then None else Some k)"
    by (rule inv_core_old[OF core b])
  have c: "newServer (swaps s k) = None \<longrightarrow> activeVite s1 = oldServer (swaps s k)"
    using core rp by (auto simp: s1 settle_def old inv_core_def)
  have d: "\<forall>n. pc (swaps s k) = AwaitLoad n \<longrightarrow>
              activeVite s1 = Some n \<and> oldServer (swaps s k) \<noteq> Some n"
    using core rp by (auto simp: s1 settle_def old inv_core_def pc_ok_def)
  have r1: "reachable s1" by (rule reachable_step[OF assms(1,2)])
  have e: "\<forall>evs s2. run evs s1 = Some s2 \<longrightarrow>
              restartPromise s2 = Some k \<and> pc (swaps s2 k) = SwapFailed \<and>
              restartVite s2 = (s2, k) \<and> nswaps s2 = nswaps s1 \<and>
              serverIdCounter s2 = serverIdCounter s1 \<and> activeVite s2 = activeVite s1"
  proof (intro allI impI)
    fix evs s2
    assume "run evs s1 = Some s2"
    from stuck_run[OF r1 _ _ this, of k] a
    show "restartPromise s2 = Some k \<and> pc (swaps s2 k) = SwapFailed \<and>
              restartVite s2 = (s2, k) \<and> nswaps s2 = nswaps s1 \<and>
              serverIdCounter s2 = serverIdCounter s1 \<and> activeVite s2 = activeVite s1"
      by (simp add: stuck_def restartVite_Some)
  qed
  from a c d e show ?thesis by blast
qed

theorem failed_swap_keeps_promise_witness:
  "reachable (the (run before_create init)) \<and>
   step (SwapIO 0 Err) (the (run before_create init)) =
     Some (the (run (before_create @ [SwapIO 0 Err]) init)) \<and>
   pc (swaps (the (run before_create init)) 0) = AwaitCreate 5173 \<and>
   run [Tick, HttpRequest True] (the (run (before_create @ [SwapIO 0 Err]) init)) =
     Some (the (run create_fails init)) \<and>
   restartPromise (the (run create_fails init)) = Some 0 \<and>
   pc (swaps (the (run create_fails init)) 0) = SwapFailed \<and>
   restartVite (the (run create_fails init)) = (the (run create_fails init), 0) \<and>
   activeVite (the (run create_fails init)) = None"
proof -
  have r: "run before_create init = Some (the (run before_create init))"
    by (simp add: before_create_def exec_defs)
  have st: "step (SwapIO 0 Err) (the (run before_create init)) =
     Some (the (run (before_create @ [SwapIO 0 Err]) init))"
    by (simp add: before_create_def exec_defs)
  have p: "pc (swaps (the (run before_create init)) 0) = AwaitCreate 5173"
    by (simp add: before_create_def exec_defs)
  have ev: "run [Tick, HttpRequest True] (the (run (before_create @ [SwapIO 0 Err]) init)) =
     Some (the (run create_fails init))"
    by (simp add: create_fails_def before_create_def exec_defs)
  have av: "activeVite (the (run (before_create @ [SwapIO 0 Err]) init)) = None"
    by (simp add: before_create_def exec_defs)
  have ne: "pc (swaps (the (run before_create init)) 0) \<noteq> AwaitRm"
    "pc (swaps (the (run before_create init)) 0) \<noteq> AwaitClose"
    unfolding p by simp_all
  note later = failed_swap_keeps_promise[OF run_init_reachable[OF r] st ne,
      THEN conjunct2, THEN conjunct2, THEN conjunct2, THEN conjunct2, THEN conjunct2,
      THEN conjunct2, rule_format, OF ev]
  from later av
  have "restartPromise (the (run create_fails init)) = Some 0 \<and>
   pc (swaps (the (run create_fails init)) 0) = SwapFailed \<and>
   restartVite (the (run create_fails init)) = (the (run create_fails init), 0) \<and>
   activeVite (the (run create_fails init)) = None"
    by simp
  with run_init_reachable[OF r] st p ev show ?thesis by simp
qed

text \<open>
  C8.  \<open>getServerBuild\<close> returns a cached build without loading; on a miss it calls
  the load once, and when the load returns the build is stored under the server and
  returned.  A server's cache entry is deleted as often as its \<open>close\<close> is called,
  and at most once.
\<close>

theorem cache_get_and_evict:
  assumes "reachable s"
  shows "(\<forall>v b. serverBuildCache s v = Some b \<longrightarrow> getServerBuild v s = (Some b, s)) \<and>
         (\<forall>v. serverBuildCache s v = None \<longrightarrow>
              getServerBuild v s = (None, s\<lparr>trace := trace s @ [LoadModule v]\<rparr>)) \<and>
         (\<forall>v b. fst (getServerBuild_loaded v b s) = b \<and>
                serverBuildCache (snd (getServerBuild_loaded v b s)) =
                  (serverBuildCache s)(v := Some b)) \<and>
         (\<forall>g. count_list (trace s) (CacheDelete g) = count_list (trace s) (CloseServer g) \<and>
              count_list (trace s) (CacheDelete g) \<le> 1)"
proof -
  from reachable_inv[OF assms] have "inv_trace s" by simp
  then have d: "\<forall>g. count_list (trace s) (CacheDelete g) = count_list (trace s) (CloseServer g) \<and>
              count_list (trace s) (CacheDelete g) \<le> 1"
    by (simp add: inv_trace_def)
  have a: "\<forall>v b. serverBuildCache s v = Some b \<longrightarrow> getServerBuild v s = (Some b, s)"
    by (simp add: getServerBuild_def)
  have b: "\<forall>v. serverBuildCache s v = None \<longrightarrow>
              getServerBuild v s = (None, s\<lparr>trace := trace s @ [LoadModule v]\<rparr>)"
    by (simp add: getServerBuild_def)
  have c: "\<forall>v b. fst (getServerBuild_loaded v b s) = b \<and>
                serverBuildCache (snd (getServerBuild_loaded v b s)) =
                  (serverBuildCache s)(v := Some b)"
    by (simp add: getServerBuild_loaded_def)
  from a b c d show ?thesis by blast
qed

theorem cache_get_and_evict_witness:
  "reachable (the (run restart_on_env init)) \<and>
   serverBuildCache (the (run restart_on_env init)) 2 = Some 8 \<and>
   getServerBuild 2 (the (run restart_on_env init)) = (Some 8, the (run restart_on_env init)) \<and>
   serverBuildCache (the (run restart_on_env init)) 1 = None \<and>
   fst (getServerBuild 1 (the (run restart_on_env init))) = None \<and>
   count_list (trace (the (run restart_on_env init))) (CacheDelete 1) = 1 \<and>
   count_list (trace (the (run restart_on_env init))) (CloseServer 1) = 1 \<and>
   count_list (trace (the (run restart_on_env init))) (CacheDelete 2) = 0"
proof -
  have r: "run restart_on_env init = Some (the (run restart_on_env init))"
    by (simp add: restart_on_env_def boot_def exec_defs)
  have c: "serverBuildCache (the (run restart_on_env init)) 2 = Some 8"
    "serverBuildCache (the (run restart_on_env init)) 1 = None"
    "count_list (trace (the (run restart_on_env init))) (CacheDelete 1) = 1"
    "count_list (trace (the (run restart_on_env init))) (CacheDelete 2) = 0"
    by (simp_all add: restart_on_env_def boot_def exec_defs)
  from cache_get_and_evict[OF run_init_reachable[OF r]] c run_init_reachable[OF r]
  show ?thesis by simp
qed

text \<open>
  C5 (the code at the failing input).  A request that arrives while
  \<open>oldServer.close()\<close> is awaited finds \<open>restartPromise\<close> set and is parked.
  The queues were drained before the close began, and the restart ends without another
  drain: the request is still queued when the restart is over, no \<open>resolve\<close> was
  called for it, and no server was attached to it.
\<close>

theorem held_during_close_stranded:
  "run held_while_closing init \<noteq> None \<and>
   restartPromise (the (run (restart_on_env @ [HttpRequest False]) init)) = Some 1 \<and>
   pc (swaps (the (run (restart_on_env @ [HttpRequest False]) init)) 1) = AwaitClose \<and>
   pendingHttpRequests (the (run (restart_on_env @ [HttpRequest False]) init)) = [2] \<and>
   restartPromise (the (run held_while_closing init)) = None \<and>
   pc (swaps (the (run held_while_closing init)) 1) = SwapDone \<and>
   pendingHttpRequests (the (run held_while_closing init)) = [2] \<and>
   ready (the (run held_while_closing init)) = [] \<and>
   viteServer (reqs (the (run held_while_closing init)) 2) = None \<and>
   rstate (reqs (the (run held_while_closing init)) 2) = ReqRunning \<and>
   trace (the (run held_while_closing init)) =
     [RmCache, GetPort, CreateServer 5173, Activate 1, LoadModule 1, CacheSet 1,
      GetPort, CreateServer 5174, Activate 2, LoadModule 2, CacheSet 2, ResolveHttp 1,
      CacheDelete 1, CloseServer 1]"
  by (simp add: held_while_closing_def restart_on_env_def boot_def exec_defs)

text \<open>
  C7.  The waterfall server, started with server 1 and receiving requests other than
  \<open>/\<close>: the twentieth request starts the one restart.  Every request numbered 1 to
  19 is bound to server 1, whenever it arrives.  Every request numbered 20 or more is bound
  to no server or to server 2, and once the restart has created server 2 and loaded its
  build, running the continuations then queued leaves every such request bound to
  server 2, the earlier ones still bound to server 1.  (Request \<open>r\<close> of the model
  is the one numbered \<open>r + 1\<close>.)
\<close>

theorem waterfall_binding:
  assumes "wf_run evs wf_init = Some s" and "WfRequest True \<notin> set evs"
  shows "(\<forall>r<wf_nreqs s. Suc r < waterfallRestartOn \<longrightarrow>
            wf_viteServer (wf_reqs s r) = Some 1) \<and>
         (\<forall>r<wf_nreqs s. waterfallRestartOn \<le> Suc r \<longrightarrow>
            wf_viteServer (wf_reqs s r) = None \<or> wf_viteServer (wf_reqs s r) = Some 2) \<and>
         (wf_nreqs s < waterfallRestartOn \<longrightarrow> wf_nrestarts s = 1 \<and> restarting s = None) \<and>
         (waterfallRestartOn \<le> wf_nreqs s \<longrightarrow> wf_nrestarts s = 2 \<and> restarting s = Some 1) \<and>
         (waterfallRestartOn \<le> wf_nreqs s \<and> wf_pc (wf_restarts s 1) = WfDone \<longrightarrow>
            (\<exists>s'. wf_run (replicate (length (wf_ready s)) WfTick) s = Some s' \<and>
                  wf_nreqs s' = wf_nreqs s \<and> vite_server s' = Some 2 \<and>
                  (\<forall>r<wf_nreqs s. Suc r < waterfallRestartOn \<longrightarrow>
                     wf_viteServer (wf_reqs s' r) = Some 1) \<and>
                  (\<forall>r<wf_nreqs s. waterfallRestartOn \<le> Suc r \<longrightarrow>
                     wf_viteServer (wf_reqs s' r) = Some 2)))"
proof -
  from wf_inv_run[OF wf_inv_init assms] have inv: "wf_inv s" .
  note b = wf_inv_binding[OF inv]
  have d: "waterfallRestartOn \<le> wf_nreqs s \<and> wf_pc (wf_restarts s 1) = WfDone \<longrightarrow>
            (\<exists>s'. wf_run (replicate (length (wf_ready s)) WfTick) s = Some s' \<and>
                  wf_nreqs s' = wf_nreqs s \<and> vite_server s' = Some 2 \<and>
                  (\<forall>r<wf_nreqs s. Suc r < waterfallRestartOn \<longrightarrow>
                     wf_viteServer (wf_reqs s' r) = Some 1) \<and>
                  (\<forall>r<wf_nreqs s. waterfallRestartOn \<le> Suc r \<longrightarrow>
                     wf_viteServer (wf_reqs s' r) = Some 2))"
  proof
    assume a: "waterfallRestartOn \<le> wf_nreqs s \<and> wf_pc (wf_restarts s 1) = WfDone"
    then have a1: "waterfallRestartOn \<le> wf_nreqs s" and a2: "wf_pc (wf_restarts s 1) = WfDone"
      by simp_all
    from wf_drain[OF inv a1 a2 refl] obtain s' where
      s': "wf_run (replicate (length (wf_ready s)) WfTick) s = Some s'" "wf_ready s' = []"
        "wf_nreqs s' = wf_nreqs s" "wf_pc (wf_restarts s' 1) = WfDone" "wf_inv s'" by blast
    from wf_inv_binding[OF s'(5)] s'(2,3,4) a1
    have "vite_server s' = Some 2 \<and>
          (\<forall>r<wf_nreqs s. Suc r < waterfallRestartOn \<longrightarrow>
             wf_viteServer (wf_reqs s' r) = Some 1) \<and>
          (\<forall>r<wf_nreqs s. waterfallRestartOn \<le> Suc r \<longrightarrow>
             wf_viteServer (wf_reqs s' r) = Some 2)" by simp
    with s'(1,3) show "\<exists>s'. wf_run (replicate (length (wf_ready s)) WfTick) s = Some s' \<and>
                  wf_nreqs s' = wf_nreqs s \<and> vite_server s' = Some 2 \<and>
                  (\<forall>r<wf_nreqs s. Suc r < waterfallRestartOn \<longrightarrow>
                     wf_viteServer (wf_reqs s' r) = Some 1) \<and>
                  (\<forall>r<wf_nreqs s. waterfallRestartOn \<le> Suc r \<longrightarrow>
                     wf_viteServer (wf_reqs s' r) = Some 2)" by blast
  qed
  from b d show ?thesis by blast
qed

theorem waterfall_binding_witness:
  "wf_run waterfall wf_init \<noteq> None \<and> WfRequest True \<notin> set waterfall \<and>
   wf_nreqs (the (wf_run waterfall wf_init)) = 39 \<and>
   map (\<lambda>r. wf_viteServer (wf_reqs (the (wf_run waterfall wf_init)) r)) [0..<39] =
     replicate 19 (Some 1) @ replicate 20 (Some 2)"
proof -
  from waterfall_final obtain s where run: "wf_run waterfall wf_init = Some s"
    and n: "wf_nreqs s = 39" and dn: "wf_pc (wf_restarts s 1) = WfDone" "wf_ready s = []"
    by blast
  have ev: "WfRequest True \<notin> set waterfall"
    by (simp add: waterfall_def wf_startup_def)
  note t = waterfall_binding[OF run ev]
  from t n have early: "\<And>r. r < 19 \<Longrightarrow> wf_viteServer (wf_reqs s r) = Some 1"
    by (simp add: waterfallRestartOn_def)
  from t n dn have late: "\<And>r. 19 \<le> r \<Longrightarrow> r < 39 \<Longrightarrow> wf_viteServer (wf_reqs s r) = Some 2"
    by (simp add: waterfallRestartOn_def)
  have "[0..<39] = [0..<19] @ [19..<39]"
    using upt_add_eq_append[of 0 19 20] by simp
  then have "map (\<lambda>r. wf_viteServer (wf_reqs s r)) [0..<39] =
     map (\<lambda>r. wf_viteServer (wf_reqs s r)) [0..<19] @
     map (\<lambda>r. wf_viteServer (wf_reqs s r)) [19..<39]" by simp
  also have "map (\<lambda>r. wf_viteServer (wf_reqs s r)) [0..<19] = replicate 19 (Some 1)"
    using map_upt_const[of 0 19 "\<lambda>r. wf_viteServer (wf_reqs s r)" "Some 1"] early by simp
  also have "map (\<lambda>r. wf_viteServer (wf_reqs s r)) [19..<39] = replicate 20 (Some 2)"
    using map_upt_const[of 19 39 "\<lambda>r. wf_viteServer (wf_reqs s r)" "Some 2"] late by simp
  finally have m: "map (\<lambda>r. wf_viteServer (wf_reqs s r)) [0..<39] =
     replicate 19 (Some 1) @ replicate 20 (Some 2)" .
  from run have s: "the (wf_run waterfall wf_init) = s" by simp
  show ?thesis unfolding s using run ev n m by simp
qed

end
